theory Spec2Isabelle
  imports Complex_Main "HOL-Library.AList" "HOL-Library.Sublist"
begin

section \<open>The content script of the subtitle translator (frontend/content.js)\<close>

text \<open>
  The content script keeps one global object \<^verbatim>\<open>state\<close>, a cache (a JavaScript \<^verbatim>\<open>Map\<close>),
  and reacts to playback events, popup messages, timers and the settlement of backend
  requests. Every handler runs to completion before the next one starts, so the script is
  modelled as a function from the world before a handler to the world after it.

  Numbers (\<^verbatim>\<open>performance.now()\<close>, \<^verbatim>\<open>Date.now()\<close>, playback seconds) are modelled as reals;
  rounding of IEEE doubles is outside the model. What the backend returns is taken to be an
  array of lines, as the script expects it; an array is truthy, so the test \<^verbatim>\<open>if (cached)\<close>
  of \<^verbatim>\<open>onTimeTick\<close> is the test for a hit.
\<close>

subsection \<open>Constants\<close>

text \<open>The first three are fields of the object \<^verbatim>\<open>SST\<close>; the trim bound of \<^verbatim>\<open>cacheSet\<close> and
  \<^verbatim>\<open>MAX\<close> of \<^verbatim>\<open>tryStartActive\<close> are literals of the code.\<close>

definition TICK_HZ :: real where "TICK_HZ = 4"
definition CHUNK_AHEAD_SEC :: real where "CHUNK_AHEAD_SEC = 2"
definition CACHE_TTL_MS :: real where "CACHE_TTL_MS = 2 * 60 * 1000"
definition CACHE_MAX :: nat where "CACHE_MAX = 500"
definition MAX_ATTEMPTS :: nat where "MAX_ATTEMPTS = 20"

subsection \<open>Data\<close>

datatype mode = IDLE | ACTIVE | ERROR

record line =
  ln_start :: real
  ln_end :: real
  ln_text :: string

text \<open>
  The cache is a \<^verbatim>\<open>Map\<close> from key strings to \<^verbatim>\<open>{ts, data}\<close>. A \<^verbatim>\<open>Map\<close> iterates in insertion
  order, \<^verbatim>\<open>set\<close> on a present key replaces the value where it stands and \<^verbatim>\<open>set\<close> on an absent
  key appends: an association list with \<^const>\<open>AList.update\<close> and \<^const>\<open>AList.delete\<close>.
\<close>

type_synonym cache_entry = "real \<times> line list"
type_synonym cache_map = "(string \<times> cache_entry) list"

subsection \<open>Cache\<close>

text \<open>Decimal rendering of the bucket, as the template string prints an integer.\<close>

definition digit_char :: "nat \<Rightarrow> char" where
  "digit_char d = ''0123456789'' ! (d mod 10)"

function show_nat :: "nat \<Rightarrow> string" where
  "show_nat n = (if n < 10 then [digit_char n] else show_nat (n div 10) @ [digit_char n])"
  by pat_completeness auto
termination
  by (relation "measure id") auto

definition show_int :: "int \<Rightarrow> string" where
  "show_int i = (if i < 0 then CHR ''-'' # show_nat (nat (- i)) else show_nat (nat i))"

text \<open>\<^verbatim>\<open>cacheKey\<close>: \<^verbatim>\<open>`${videoId}|${lang}|${Math.floor(tSec)}`\<close>.\<close>

definition cacheKey :: "string \<Rightarrow> string \<Rightarrow> real \<Rightarrow> string" where
  "cacheKey vid lang tSec = vid @ ''|'' @ lang @ ''|'' @ show_int \<lfloor>tSec\<rfloor>"

text \<open>
  \<^verbatim>\<open>cacheGet\<close> at \<^verbatim>\<open>Date.now() = now\<close>: the data on a fresh hit; an expired entry is deleted and
  \<^verbatim>\<open>null\<close> returned. The cache after the call is the second component.
\<close>

definition cacheGet :: "string \<Rightarrow> real \<Rightarrow> cache_map \<Rightarrow> line list option \<times> cache_map" where
  "cacheGet key now c =
     (case map_of c key of
        None \<Rightarrow> (None, c)
      | Some hit \<Rightarrow>
          if now - fst hit > CACHE_TTL_MS then (None, AList.delete key c)
          else (Some (snd hit), c))"

text \<open>
  \<^verbatim>\<open>cacheSet\<close>: write the entry, then the naive trim: beyond 500 entries the first key of the
  \<^verbatim>\<open>Map\<close> is deleted.
\<close>

definition cacheSet :: "string \<Rightarrow> line list \<Rightarrow> real \<Rightarrow> cache_map \<Rightarrow> cache_map" where
  "cacheSet key data now c =
     (let c1 = AList.update key (now, data) c in
      if length c1 > CACHE_MAX then AList.delete (fst (hd c1)) c1 else c1)"

text \<open>The key that \<^const>\<open>cacheSet\<close> trims, if it trims one.\<close>

definition evicted :: "string \<Rightarrow> line list \<Rightarrow> real \<Rightarrow> cache_map \<Rightarrow> string option" where
  "evicted key data now c =
     (let c1 = AList.update key (now, data) c in
      if length c1 > CACHE_MAX then Some (fst (hd c1)) else None)"

text \<open>The loop of \<^verbatim>\<open>resetForNavigation\<close> that deletes every key starting with \<^verbatim>\<open>`${videoId}|`\<close>.\<close>

definition purge :: "string \<Rightarrow> cache_map \<Rightarrow> cache_map" where
  "purge vid c = filter (\<lambda>kv. \<not> prefix (vid @ ''|'') (fst kv)) c"

subsection \<open>Line selection (\<^verbatim>\<open>renderFromWindow\<close>)\<close>

definition spans :: "real \<Rightarrow> line \<Rightarrow> bool" where
  "spans t l \<longleftrightarrow> t \<ge> ln_start l \<and> t < ln_end l"

definition ahead :: "real \<Rightarrow> line \<Rightarrow> bool" where
  "ahead t l \<longleftrightarrow> ln_start l - t \<le> CHUNK_AHEAD_SEC \<and> ln_start l > t"

text \<open>The line \<^verbatim>\<open>current\<close> that \<^verbatim>\<open>renderFromWindow\<close> ends with, and the text it hands to
  \<^verbatim>\<open>setCaptionText\<close>.\<close>

definition pickLine :: "line list \<Rightarrow> real \<Rightarrow> line option" where
  "pickLine lines t =
     (case find (spans t) lines of
        Some l \<Rightarrow> Some l
      | None \<Rightarrow> find (ahead t) lines)"

definition windowText :: "line list \<Rightarrow> real \<Rightarrow> string" where
  "windowText lines t = (case pickLine lines t of Some l \<Rightarrow> ln_text l | None \<Rightarrow> [])"


subsection \<open>The world: the object \<^verbatim>\<open>state\<close> and what the browser holds for the script\<close>

type_synonym element = nat

datatype kind = Chunks | Translate

text \<open>
  A promise chain started by \<^verbatim>\<open>onTimeTick\<close> and not yet settled: the values its callbacks
  close over (\<^verbatim>\<open>ckey\<close>, \<^verbatim>\<open>t\<close>) and the backend call it waits for.
\<close>

record request =
  r_ckey :: string
  r_t :: real
  r_stage :: kind

text \<open>
  The fields up to \<open>cache\<close> are those of \<^verbatim>\<open>state\<close> (\<^verbatim>\<open>tickTimer\<close> and \<^verbatim>\<open>obs\<close>, which no
  handler reads, are left out). \<open>overlayEl\<close> is the overlay in the document: the player
  it hangs under and the text of its caption. An \<^verbatim>\<open>AbortController\<close> is the number it was
  created with; \<open>aborted\<close> holds those whose \<^verbatim>\<open>abort()\<close> was called, \<open>pending\<close> the promise
  chains not yet settled, \<open>recoveries\<close> the number of armed \<^verbatim>\<open>setTimeout(.., 1200)\<close> timers and
  \<open>waits\<close> the armed \<^verbatim>\<open>setTimeout(wait, 150)\<close> timers, each with the value of \<^verbatim>\<open>attempts\<close>
  in its closure.
\<close>

record world =
  mode :: mode
  enabled :: bool
  language :: string
  hint :: string
  videoEl :: "element option"
  lastUrl :: string
  videoId :: "string option"
  lastTickAt :: real
  inflight :: "(nat \<times> kind) option"
  cache :: cache_map
  overlayEl :: "(element \<times> string) option"
  aborted :: "nat set"
  pending :: "nat \<rightharpoonup> request"
  nextCtrl :: nat
  recoveries :: nat
  waits :: "nat list"

text \<open>What a handler reads from the browser while it runs.\<close>

record env =
  perfNow :: real
  dateNow :: real
  currentTime :: real
  playerShell :: "element option"
  videoNode :: "element option"
  adShowing :: bool
  href :: string
  urlVideoId :: "string option"

text \<open>\<^verbatim>\<open>settings\<close> of a popup message; a missing field is \<open>None\<close>.\<close>

record settings =
  s_enabled :: "bool option"
  s_language :: "string option"
  s_hint :: "string option"

datatype msg =
  SETTINGS_CHANGED "settings option"
| START_TRANSLATION "settings option"
| STOP_TRANSLATION
| OTHER_MESSAGE

text \<open>How a backend call ends on the network: a parsed body, or a failure (a network error, a
  response that is not ok, a body that does not parse).\<close>

datatype outcome = Resolved "line list" | Failed

datatype err = AbortError | OtherError

datatype event =
  TimeUpdate
| Seeked
| RateChange
| Play
| Pause
| Message msg
| UrlMaybeChanged
| ChunksSettled nat outcome
| TranslateSettled nat outcome
| RecoveryTimer
| WaitTimer nat

subsection \<open>Small helpers of the script\<close>

text \<open>JavaScript truthiness of a string or \<^verbatim>\<open>null\<close>, and \<^verbatim>\<open>a || b\<close> on such values.\<close>

definition truthy :: "string option \<Rightarrow> bool" where
  "truthy x = (case x of None \<Rightarrow> False | Some s \<Rightarrow> s \<noteq> [])"

definition or_else :: "string option \<Rightarrow> string \<Rightarrow> string" where
  "or_else x d = (case x of None \<Rightarrow> d | Some s \<Rightarrow> if s = [] then d else s)"

definition setState :: "mode \<Rightarrow> world \<Rightarrow> world" where
  "setState next w = (if mode w = next then w else w\<lparr>mode := next\<rparr>)"

definition setCaptionText :: "string \<Rightarrow> world \<Rightarrow> world" where
  "setCaptionText txt w =
     (case overlayEl w of
        None \<Rightarrow> w
      | Some ov \<Rightarrow> w\<lparr>overlayEl := Some (fst ov, txt)\<rparr>)"

definition ensureOverlay :: "element \<Rightarrow> (element \<times> string) option \<Rightarrow> (element \<times> string) option" where
  "ensureOverlay parent ov =
     (case ov of
        None \<Rightarrow> Some (parent, [])
      | Some el \<Rightarrow> if fst el = parent then Some el else Some (parent, []))"

definition isAdPlaying :: "env \<Rightarrow> bool" where
  "isAdPlaying e \<longleftrightarrow> playerShell e \<noteq> None \<and> adShowing e"

definition renderFromWindow :: "line list \<Rightarrow> real \<Rightarrow> world \<Rightarrow> world" where
  "renderFromWindow lines t w = setCaptionText (windowText lines t) w"

text \<open>\<^verbatim>\<open>if (state.inflight) { state.inflight.ctrl.abort(); state.inflight = null; }\<close>\<close>

definition abortInflight :: "world \<Rightarrow> world" where
  "abortInflight w =
     (case inflight w of
        None \<Rightarrow> w
      | Some fl \<Rightarrow> w\<lparr>aborted := insert (fst fl) (aborted w), inflight := None\<rparr>)"

subsection \<open>Playback and hydration\<close>

definition onTimeTick :: "env \<Rightarrow> world \<Rightarrow> world" where
  "onTimeTick e w =
     (if videoEl w = None \<or> mode w \<noteq> ACTIVE then w
      else if perfNow e - lastTickAt w < 1000 / TICK_HZ then w
      else
        let w1 = w\<lparr>lastTickAt := perfNow e\<rparr>;
            t = currentTime e
        in if \<not> truthy (videoId w1) then w1
           else if isAdPlaying e then setCaptionText [] w1
           else
             let ckey = cacheKey (the (videoId w1)) (language w1) t;
                 got = cacheGet ckey (dateNow e) (cache w1);
                 w2 = w1\<lparr>cache := snd got\<rparr>
             in case fst got of
                  Some cached \<Rightarrow> renderFromWindow cached t w2
                | None \<Rightarrow>
                    let w3 = abortInflight w2;
                        ctrl = nextCtrl w3
                    in w3\<lparr>nextCtrl := Suc ctrl,
                          inflight := Some (ctrl, Chunks),
                          pending := (pending w3)(ctrl \<mapsto>
                             \<lparr>r_ckey = ckey, r_t = t, r_stage = Chunks\<rparr>)\<rparr>)"

text \<open>
  The three callbacks of the chain. The first \<^verbatim>\<open>then\<close> records the stage and starts
  \<^verbatim>\<open>translateWindow\<close>; the second writes the cache, renders and clears \<^verbatim>\<open>inflight\<close>; \<^verbatim>\<open>catch\<close>
  returns on an \<^verbatim>\<open>AbortError\<close> and otherwise enters \<^verbatim>\<open>ERROR\<close>, blanks the caption and arms
  the recovery timer.
\<close>

definition thenChunks :: "nat \<Rightarrow> request \<Rightarrow> world \<Rightarrow> world" where
  "thenChunks ctrl r w =
     w\<lparr>inflight := Some (ctrl, Translate),
       pending := (pending w)(ctrl \<mapsto> r\<lparr>r_stage := Translate\<rparr>)\<rparr>"

definition thenTranslated :: "env \<Rightarrow> request \<Rightarrow> line list \<Rightarrow> world \<Rightarrow> world" where
  "thenTranslated e r translated w =
     (let w1 = w\<lparr>cache := cacheSet (r_ckey r) translated (dateNow e) (cache w)\<rparr>;
          w2 = renderFromWindow translated (r_t r) w1
      in w2\<lparr>inflight := None\<rparr>)"

definition catchHydration :: "err \<Rightarrow> world \<Rightarrow> world" where
  "catchHydration er w =
     (if er = AbortError then w
      else
        let w1 = setState ERROR w;
            w2 = setCaptionText [] w1
        in w2\<lparr>recoveries := Suc (recoveries w2)\<rparr>)"

text \<open>
  The browser's side of a backend call made with \<^verbatim>\<open>{ signal }\<close>: once \<^verbatim>\<open>abort()\<close> was called on
  the controller, \<^verbatim>\<open>fetch\<close> and the reading of the body reject with an \<^verbatim>\<open>AbortError\<close>, whatever
  the network did; otherwise the call ends as the network had it. The callbacks run in the
  same turn as the settlement, so no other handler comes between them.
\<close>

definition settle :: "world \<Rightarrow> nat \<Rightarrow> outcome \<Rightarrow> err + line list" where
  "settle w ctrl out =
     (if ctrl \<in> aborted w then Inl AbortError
      else case out of Failed \<Rightarrow> Inl OtherError | Resolved ls \<Rightarrow> Inr ls)"

definition onChunksSettled :: "nat \<Rightarrow> outcome \<Rightarrow> world \<Rightarrow> world" where
  "onChunksSettled ctrl out w =
     (case pending w ctrl of
        None \<Rightarrow> w
      | Some r \<Rightarrow>
          if r_stage r \<noteq> Chunks then w
          else
            let w1 = w\<lparr>pending := (pending w)(ctrl := None)\<rparr>
            in case settle w ctrl out of
                 Inl er \<Rightarrow> catchHydration er w1
               | Inr origLines \<Rightarrow> thenChunks ctrl r w1)"

definition onTranslateSettled :: "env \<Rightarrow> nat \<Rightarrow> outcome \<Rightarrow> world \<Rightarrow> world" where
  "onTranslateSettled e ctrl out w =
     (case pending w ctrl of
        None \<Rightarrow> w
      | Some r \<Rightarrow>
          if r_stage r \<noteq> Translate then w
          else
            let w1 = w\<lparr>pending := (pending w)(ctrl := None)\<rparr>
            in case settle w ctrl out of
                 Inl er \<Rightarrow> catchHydration er w1
               | Inr translated \<Rightarrow> thenTranslated e r translated w1)"

definition onRecoveryTimer :: "world \<Rightarrow> world" where
  "onRecoveryTimer w =
     (if recoveries w = 0 then w
      else setState ACTIVE (w\<lparr>recoveries := recoveries w - 1\<rparr>))"

subsection \<open>Lifecycle\<close>

definition injectIfReady :: "env \<Rightarrow> world \<Rightarrow> bool \<times> world" where
  "injectIfReady e w =
     (case (playerShell e, videoNode e) of
        (Some player, Some vid) \<Rightarrow>
          (True, w\<lparr>videoEl := Some vid, overlayEl := ensureOverlay player (overlayEl w)\<rparr>)
      | _ \<Rightarrow> (False, w))"

definition removeOverlayAndListeners :: "world \<Rightarrow> world" where
  "removeOverlayAndListeners w = w\<lparr>overlayEl := None, videoEl := None\<rparr>"

definition stopAll :: "world \<Rightarrow> world" where
  "stopAll w = removeOverlayAndListeners (abortInflight (setState IDLE w))"

definition resetForNavigation :: "env \<Rightarrow> world \<Rightarrow> world" where
  "resetForNavigation e w =
     (let w1 = stopAll w;
          w2 = (if truthy (videoId w1) then w1\<lparr>cache := purge (the (videoId w1)) (cache w1)\<rparr>
                else w1)
      in w2\<lparr>videoId := urlVideoId e\<rparr>)"

text \<open>
  The closure \<^verbatim>\<open>wait\<close> of \<^verbatim>\<open>tryStartActive\<close>, entered with \<^verbatim>\<open>attempts\<close> as the closure has it.
\<close>

definition wait :: "env \<Rightarrow> nat \<Rightarrow> world \<Rightarrow> world" where
  "wait e attempts0 w =
     (let attempts = Suc attempts0;
          inj = injectIfReady e w
      in if fst inj then onTimeTick e ((snd inj)\<lparr>lastTickAt := 0\<rparr>)
         else if attempts < MAX_ATTEMPTS then (snd inj)\<lparr>waits := waits (snd inj) @ [attempts]\<rparr>
         else setState ERROR (snd inj))"

definition tryStartActive :: "env \<Rightarrow> world \<Rightarrow> world" where
  "tryStartActive e w = (if \<not> enabled w then w else wait e 0 (setState ACTIVE w))"

definition onWaitTimer :: "env \<Rightarrow> nat \<Rightarrow> world \<Rightarrow> world" where
  "onWaitTimer e i w =
     (if i < length (waits w)
      then wait e (waits w ! i) (w\<lparr>waits := take i (waits w) @ drop (Suc i) (waits w)\<rparr>)
      else w)"

definition onUrlMaybeChanged :: "env \<Rightarrow> world \<Rightarrow> world" where
  "onUrlMaybeChanged e w =
     (if href e = lastUrl w then w
      else
        let w1 = w\<lparr>lastUrl := href e\<rparr>
        in if urlVideoId e \<noteq> videoId w1
           then
             let w2 = resetForNavigation e w1
             in if enabled w2 \<and> mode w2 \<noteq> ERROR then tryStartActive e w2 else w2
           else w1)"

subsection \<open>Messages from the popup\<close>

definition applySettings :: "settings option \<Rightarrow> world \<Rightarrow> world" where
  "applySettings st w =
     w\<lparr>language := or_else (case st of None \<Rightarrow> None | Some x \<Rightarrow> s_language x) (language w),
       hint := or_else (case st of None \<Rightarrow> None | Some x \<Rightarrow> s_hint x) (hint w)\<rparr>"

definition onMessage :: "env \<Rightarrow> msg \<Rightarrow> world \<Rightarrow> world" where
  "onMessage e m w =
     (case m of
        SETTINGS_CHANGED st \<Rightarrow>
          let w1 = w\<lparr>enabled := (case st of None \<Rightarrow> False
                                   | Some x \<Rightarrow> s_enabled x = Some True)\<rparr>;
              w2 = applySettings st w1
          in if enabled w2 \<and> mode w2 = IDLE then tryStartActive e w2
             else if \<not> enabled w2 \<and> mode w2 \<noteq> IDLE then stopAll w2
             else w2
      | START_TRANSLATION st \<Rightarrow>
          let w1 = w\<lparr>enabled := True\<rparr>;
              w2 = applySettings st w1;
              w3 = w2\<lparr>videoId := urlVideoId e\<rparr>
          in tryStartActive e w3
      | STOP_TRANSLATION \<Rightarrow> stopAll w
      | OTHER_MESSAGE \<Rightarrow> w)"

subsection \<open>Handlers as steps, and the worlds the script can reach\<close>

text \<open>
  \<^verbatim>\<open>timeupdate\<close> and \<^verbatim>\<open>seeked\<close> are both bound to \<^verbatim>\<open>onTimeTick\<close>; the \<^verbatim>\<open>ratechange\<close> listener
  sets \<^verbatim>\<open>lastTickAt\<close> to 0 first; \<^verbatim>\<open>play\<close> and \<^verbatim>\<open>pause\<close> blank the caption.
\<close>

definition step :: "env \<Rightarrow> event \<Rightarrow> world \<Rightarrow> world" where
  "step e ev w =
     (case ev of
        TimeUpdate \<Rightarrow> onTimeTick e w
      | Seeked \<Rightarrow> onTimeTick e w
      | RateChange \<Rightarrow> onTimeTick e (w\<lparr>lastTickAt := 0\<rparr>)
      | Play \<Rightarrow> setCaptionText [] w
      | Pause \<Rightarrow> setCaptionText [] w
      | Message m \<Rightarrow> onMessage e m w
      | UrlMaybeChanged \<Rightarrow> onUrlMaybeChanged e w
      | ChunksSettled c out \<Rightarrow> onChunksSettled c out w
      | TranslateSettled c out \<Rightarrow> onTranslateSettled e c out w
      | RecoveryTimer \<Rightarrow> onRecoveryTimer w
      | WaitTimer i \<Rightarrow> onWaitTimer e i w)"

text \<open>The world after the script is loaded on the page described by the environment.\<close>

definition boot :: "env \<Rightarrow> world" where
  "boot e =
     \<lparr>mode = IDLE, enabled = False, language = ''en'', hint = [], videoEl = None,
      lastUrl = href e, videoId = urlVideoId e, lastTickAt = 0, inflight = None,
      cache = [], overlayEl = None, aborted = {}, pending = Map.empty, nextCtrl = 0,
      recoveries = 0, waits = []\<rparr>"

inductive reachable :: "world \<Rightarrow> bool" where
  reach_boot: "reachable (boot e)"
| reach_step: "reachable w \<Longrightarrow> reachable (step e ev w)"

fun run :: "(env \<times> event) list \<Rightarrow> world \<Rightarrow> world" where
  "run [] w = w"
| "run (x # xs) w = run xs (step (fst x) (snd x) w)"


subsection \<open>Sequences of cache operations\<close>

text \<open>
  The three things the script does to the cache, and the cache after a sequence of them.
\<close>

datatype cache_op = Get string real | Put string "line list" real | Purge string

fun cache_do :: "cache_op \<Rightarrow> cache_map \<Rightarrow> cache_map" where
  "cache_do (Get key now) c = snd (cacheGet key now c)"
| "cache_do (Put key data now) c = cacheSet key data now c"
| "cache_do (Purge vid) c = purge vid c"

definition cache_run :: "cache_op list \<Rightarrow> cache_map \<Rightarrow> cache_map" where
  "cache_run ops c = foldl (\<lambda>c x. cache_do x c) c ops"

text \<open>
  Beside the cache, \<open>track\<close> records for every key that is present the number of the
  operation that brought it in: a key keeps its number while it stays present (also when a
  put overwrites its entry), gets the number of the current operation when it enters, and
  loses it when it is deleted or trimmed. The record is a map; it does not look at the
  order of the list.
\<close>

definition entered :: "nat \<Rightarrow> cache_map \<Rightarrow> cache_map \<Rightarrow> (string \<rightharpoonup> nat) \<Rightarrow> (string \<rightharpoonup> nat)" where
  "entered n c c' b =
     (\<lambda>k. if k \<in> fst ` set c' then (if k \<in> fst ` set c then b k else Some n) else None)"

fun track :: "cache_op list \<Rightarrow> nat \<Rightarrow> cache_map \<times> (string \<rightharpoonup> nat) \<Rightarrow> cache_map \<times> (string \<rightharpoonup> nat)" where
  "track [] n cb = cb"
| "track (x # xs) n cb =
     track xs (Suc n) (cache_do x (fst cb), entered n (fst cb) (cache_do x (fst cb)) (snd cb))"

definition ordered :: "nat \<Rightarrow> cache_map \<Rightarrow> (string \<rightharpoonup> nat) \<Rightarrow> bool" where
  "ordered n c b \<longleftrightarrow>
     distinct (map fst c) \<and> length c \<le> CACHE_MAX \<and> dom b = fst ` set c
     \<and> (\<forall>k i. b k = Some i \<longrightarrow> i < n)
     \<and> sorted_wrt (\<lambda>x y. the (b x) < the (b y)) (map fst c)"

text \<open>
  Five hundred puts for the buckets 0 to 499 of one video at the times 0 to 499, then a
  second put for bucket 0 at time 1000.
\<close>

definition kkey :: "nat \<Rightarrow> string" where
  "kkey i = cacheKey ''v'' ''en'' (real i)"

definition fill_ops :: "cache_op list" where
  "fill_ops = map (\<lambda>i. Put (kkey i) [] (real i)) [0..<500]"

definition overwrite_ops :: "cache_op list" where
  "overwrite_ops = fill_ops @ [Put (kkey 0) [] 1000]"

subsection \<open>Live requests\<close>

text \<open>
  A promise chain is live while it is pending and \<^verbatim>\<open>abort()\<close> was not called on its
  controller. The invariant of the script: a live chain is the one recorded in
  \<^verbatim>\<open>state.inflight\<close>; nothing is recorded in mode \<open>IDLE\<close>; controllers are numbered in the
  order of their creation.
\<close>

definition live :: "world \<Rightarrow> nat \<Rightarrow> bool" where
  "live w c \<longleftrightarrow> pending w c \<noteq> None \<and> c \<notin> aborted w"

definition single_flight :: "world \<Rightarrow> bool" where
  "single_flight w \<longleftrightarrow>
     (\<forall>c. live w c \<longrightarrow> (\<exists>k. inflight w = Some (c, k)))
   \<and> (mode w = IDLE \<longrightarrow> inflight w = None)
   \<and> (\<forall>c. pending w c \<noteq> None \<or> c \<in> aborted w \<or> (\<exists>k. inflight w = Some (c, k))
          \<longrightarrow> c < nextCtrl w)"

subsection \<open>Concrete pages and runs used below\<close>

text \<open>A watch page with player and video at \<^verbatim>\<open>performance.now() = n\<close>, and one where the
  player has not appeared yet.\<close>

definition env_at :: "real \<Rightarrow> env" where
  "env_at n = \<lparr>perfNow = n, dateNow = n, currentTime = 3, playerShell = Some 1,
     videoNode = Some 2, adShowing = False, href = ''https://www.youtube.com/watch?v=v'',
     urlVideoId = Some ''v''\<rparr>"

definition env_bare :: env where
  "env_bare = \<lparr>perfNow = 1000, dateNow = 1000, currentTime = 0, playerShell = None,
     videoNode = None, adShowing = False, href = ''https://www.youtube.com/watch?v=v'',
     urlVideoId = Some ''v''\<rparr>"

definition started :: world where
  "started = step (env_at 1000) (Message (START_TRANSLATION None)) (boot (env_at 1000))"

definition start_bare :: world where
  "start_bare = step env_bare (Message (START_TRANSLATION None)) (boot env_bare)"

text \<open>A second tick, 300 ms after the start, in the same one-second bucket and before the
  first request has settled.\<close>

definition retick :: world where
  "retick = step (env_at 1300) TimeUpdate started"

definition stop_then_timer :: "(env \<times> event) list" where
  "stop_then_timer =
     [(env_at 1000, Message (START_TRANSLATION None)),
      (env_at 1300, ChunksSettled 0 Failed),
      (env_at 1500, Message STOP_TRANSLATION),
      (env_at 2500, RecoveryTimer)]"

text \<open>
  A ready watch page of the video \<open>vid\<close>, and a run over three videos: the video
  \<^verbatim>\<open>a|b\<close> is started and hydrated, the page moves on to the video \<^verbatim>\<open>a\<close> and the popup's start
  message arrives before the URL watcher has looked, then the page moves on to \<^verbatim>\<open>c\<close>.
\<close>

definition page :: "string \<Rightarrow> real \<Rightarrow> env" where
  "page vid n = \<lparr>perfNow = n, dateNow = n, currentTime = 3, playerShell = Some 1,
     videoNode = Some 2, adShowing = False,
     href = ''https://www.youtube.com/watch?v='' @ vid, urlVideoId = Some vid\<rparr>"

definition lineA :: line where "lineA = \<lparr>ln_start = 10, ln_end = 13, ln_text = ''A''\<rparr>"
definition lineB :: line where "lineB = \<lparr>ln_start = 13, ln_end = 16, ln_text = ''B''\<rparr>"
definition lineC :: line where "lineC = \<lparr>ln_start = 18.5, ln_end = 21, ln_text = ''C''\<rparr>"

definition bleed :: "(env \<times> event) list" where
  "bleed =
     [(page ''a|b'' 1000, Message (START_TRANSLATION None)),
      (page ''a|b'' 1100, ChunksSettled 0 (Resolved [lineA])),
      (page ''a|b'' 1200, TranslateSettled 0 (Resolved [lineA])),
      (page ''a'' 1300, Message (START_TRANSLATION None)),
      (page ''c'' 2000, UrlMaybeChanged)]"

text \<open>A world on the video \<^verbatim>\<open>a\<close> whose cache holds a window of the video \<^verbatim>\<open>xyz\<close> and one of
  \<^verbatim>\<open>a\<close>.\<close>

definition two_videos :: world where
  "two_videos = started\<lparr>videoId := Some ''a'',
     cache := [(''xyz|en|3'', (1200, [lineA])), (''a|en|3'', (1250, [lineB]))]\<rparr>"

text \<open>
  Two runs in which the video changes under a start message. In \<open>ctx_run\<close> the video \<^verbatim>\<open>v\<close> is
  started and its first request is in flight when the page moves on to the video \<^verbatim>\<open>a\<close>,
  an ad is showing there and the popup's start message arrives before the URL watcher has
  looked; then the watcher looks and the two backend calls of the old request answer. In
  \<open>keep_run\<close> the window of \<^verbatim>\<open>v\<close> is hydrated first, then the page moves on to \<^verbatim>\<open>a\<close>, the start
  message arrives and the watcher looks.
\<close>

definition ad_page :: "string \<Rightarrow> real \<Rightarrow> env" where
  "ad_page vid n = (page vid n)\<lparr>adShowing := True\<rparr>"

definition lineOld :: line where
  "lineOld = \<lparr>ln_start = 2, ln_end = 5, ln_text = ''OLD''\<rparr>"

definition ctx_run :: "(env \<times> event) list" where
  "ctx_run =
     [(env_at 1000, Message (START_TRANSLATION None)),
      (ad_page ''a'' 1300, Message (START_TRANSLATION None)),
      (page ''a'' 1400, UrlMaybeChanged),
      (page ''a'' 1500, ChunksSettled 0 (Resolved [lineOld])),
      (page ''a'' 1600, TranslateSettled 0 (Resolved [lineOld]))]"

definition keep_run :: "(env \<times> event) list" where
  "keep_run =
     [(env_at 1000, Message (START_TRANSLATION None)),
      (env_at 1100, ChunksSettled 0 (Resolved [lineOld])),
      (env_at 1200, TranslateSettled 0 (Resolved [lineOld])),
      (page ''a'' 1300, Message (START_TRANSLATION None)),
      (page ''a'' 2000, UrlMaybeChanged)]"

section \<open>Properties\<close>

declare show_nat.simps [simp del]

lemmas handler_defs = onTimeTick_def setCaptionText_def renderFromWindow_def abortInflight_def
  setState_def thenChunks_def thenTranslated_def catchHydration_def settle_def
  onChunksSettled_def onTranslateSettled_def onRecoveryTimer_def injectIfReady_def
  removeOverlayAndListeners_def stopAll_def resetForNavigation_def wait_def
  tryStartActive_def onWaitTimer_def onUrlMaybeChanged_def applySettings_def

subsection \<open>What each handler leaves alone\<close>

lemma setCaptionText_frame [simp]:
  "mode (setCaptionText t w) = mode w"
  "enabled (setCaptionText t w) = enabled w"
  "cache (setCaptionText t w) = cache w"
  "recoveries (setCaptionText t w) = recoveries w"
  "inflight (setCaptionText t w) = inflight w"
  "pending (setCaptionText t w) = pending w"
  "aborted (setCaptionText t w) = aborted w"
  "nextCtrl (setCaptionText t w) = nextCtrl w"
  "overlayEl (setCaptionText t w) = map_option (\<lambda>ov. (fst ov, t)) (overlayEl w)"
  by (simp_all add: setCaptionText_def split: option.splits)

lemma onTimeTick_frame [simp]:
  "mode (onTimeTick e w) = mode w"
  "enabled (onTimeTick e w) = enabled w"
  "language (onTimeTick e w) = language w"
  "hint (onTimeTick e w) = hint w"
  "videoEl (onTimeTick e w) = videoEl w"
  "videoId (onTimeTick e w) = videoId w"
  "recoveries (onTimeTick e w) = recoveries w"
  "waits (onTimeTick e w) = waits w"
  "lastUrl (onTimeTick e w) = lastUrl w"
  by (simp_all add: onTimeTick_def setCaptionText_def renderFromWindow_def abortInflight_def
      Let_def split: option.splits)

lemma onTimeTick_dropped:
  "perfNow e - lastTickAt w < 1000 / TICK_HZ \<Longrightarrow> onTimeTick e w = w"
  by (simp add: onTimeTick_def)

lemma onTimeTick_accepted:
  "videoEl w \<noteq> None \<Longrightarrow> mode w = ACTIVE \<Longrightarrow> \<not> perfNow e - lastTickAt w < 1000 / TICK_HZ
    \<Longrightarrow> lastTickAt (onTimeTick e w) = perfNow e"
  by (auto simp: onTimeTick_def setCaptionText_def renderFromWindow_def abortInflight_def
      Let_def split: option.splits)

lemma stopAll_frame [simp]:
  "mode (stopAll w) = IDLE"
  "enabled (stopAll w) = enabled w"
  "language (stopAll w) = language w"
  "hint (stopAll w) = hint w"
  "videoEl (stopAll w) = None"
  "overlayEl (stopAll w) = None"
  "inflight (stopAll w) = None"
  "cache (stopAll w) = cache w"
  "videoId (stopAll w) = videoId w"
  "recoveries (stopAll w) = recoveries w"
  "waits (stopAll w) = waits w"
  "pending (stopAll w) = pending w"
  "nextCtrl (stopAll w) = nextCtrl w"
  by (simp_all add: stopAll_def removeOverlayAndListeners_def abortInflight_def setState_def
      split: option.splits)

lemma wait_frame [simp]:
  "enabled (wait e a w) = enabled w"
  "language (wait e a w) = language w"
  "hint (wait e a w) = hint w"
  "videoId (wait e a w) = videoId w"
  "recoveries (wait e a w) = recoveries w"
  by (simp_all add: wait_def injectIfReady_def setState_def Let_def split: option.splits)

lemma wait_mode: "mode (wait e a w) = mode w \<or> mode (wait e a w) = ERROR"
  by (simp add: wait_def injectIfReady_def setState_def Let_def split: option.splits)

lemma tryStartActive_frame [simp]:
  "enabled (tryStartActive e w) = enabled w"
  "language (tryStartActive e w) = language w"
  "hint (tryStartActive e w) = hint w"
  "videoId (tryStartActive e w) = videoId w"
  "recoveries (tryStartActive e w) = recoveries w"
  by (simp_all add: tryStartActive_def setState_def)

lemma settled_mode:
  "mode (onChunksSettled c out w) = mode w \<or> mode (onChunksSettled c out w) = ERROR"
  "mode (onTranslateSettled e c out w) = mode w \<or> mode (onTranslateSettled e c out w) = ERROR"
  by (auto simp: onChunksSettled_def onTranslateSettled_def catchHydration_def thenChunks_def
      thenTranslated_def renderFromWindow_def setState_def Let_def
      split: option.splits sum.splits)

lemma onWaitTimer_mode:
  "mode (onWaitTimer e i w) = mode w \<or> mode (onWaitTimer e i w) = ERROR"
  using wait_mode [of e "waits w ! i" "w\<lparr>waits := take i (waits w) @ drop (Suc i) (waits w)\<rparr>"]
  by (simp add: onWaitTimer_def)

lemma resetForNavigation_frame [simp]:
  "mode (resetForNavigation e w) = IDLE"
  "enabled (resetForNavigation e w) = enabled w"
  by (simp_all add: resetForNavigation_def Let_def)

subsection \<open>The run that starts on a ready page\<close>

lemma started_eq:
  "started = (boot (env_at 1000))\<lparr>mode := ACTIVE, enabled := True, videoEl := Some 2,
     lastTickAt := 1000, overlayEl := Some (1, []), inflight := Some (0, Chunks),
     pending := [0 \<mapsto> \<lparr>r_ckey = ''v|en|3'', r_t = 3, r_stage = Chunks\<rparr>], nextCtrl := 1\<rparr>"
  by (simp add: started_def step_def onMessage_def boot_def env_at_def handler_defs Let_def
      truthy_def or_else_def ensureOverlay_def isAdPlaying_def cacheGet_def cacheKey_def
      show_int_def show_nat.simps digit_char_def TICK_HZ_def)

lemmas eval_defs = step_def onMessage_def boot_def page_def env_at_def ad_page_def handler_defs
  Let_def truthy_def or_else_def ensureOverlay_def isAdPlaying_def cacheGet_def cacheKey_def
  show_int_def show_nat.simps digit_char_def TICK_HZ_def cacheSet_def CACHE_MAX_def
  windowText_def pickLine_def spans_def ahead_def lineOld_def CHUNK_AHEAD_SEC_def

subsection \<open>Mode transitions\<close>

lemma onUrlMaybeChanged_active:
  "mode w = IDLE \<Longrightarrow> mode (onUrlMaybeChanged e w) = ACTIVE \<Longrightarrow> enabled (onUrlMaybeChanged e w)"
  by (auto simp: onUrlMaybeChanged_def Let_def split: if_splits)

lemma onMessage_active:
  "mode w = IDLE \<Longrightarrow> mode (onMessage e m w) = ACTIVE \<Longrightarrow>
     enabled (onMessage e m w) \<and> ((\<exists>st. m = SETTINGS_CHANGED st) \<or> (\<exists>st. m = START_TRANSLATION st))"
  by (cases m) (auto simp: onMessage_def applySettings_def Let_def split: if_splits)

lemma tryStartActive_no_player:
  "enabled w \<Longrightarrow> playerShell e = None \<or> videoNode e = None \<Longrightarrow>
     mode (tryStartActive e w) = ACTIVE \<and> videoEl (tryStartActive e w) = videoEl w
     \<and> waits (tryStartActive e w) = waits w @ [1]"
  by (auto simp: tryStartActive_def wait_def injectIfReady_def setState_def MAX_ATTEMPTS_def
      split: option.splits)

lemma last_attempt_fails:
  "i < length (waits w) \<Longrightarrow> waits w ! i = 19 \<Longrightarrow> playerShell e = None \<or> videoNode e = None \<Longrightarrow>
     mode (onWaitTimer e i w) = ERROR"
  by (auto simp: onWaitTimer_def wait_def injectIfReady_def setState_def MAX_ATTEMPTS_def
      split: option.splits)

text \<open>
  C3, as the claim states it, fails: \<^verbatim>\<open>tryStartActive\<close> calls \<^verbatim>\<open>setState(ACTIVE)\<close> before it
  probes for the player. A start command on a page whose player has not appeared leaves the
  mode \<open>ACTIVE\<close> with no video element attached and one retry timer armed.
\<close>

theorem active_before_attach:
  "mode (boot env_bare) = IDLE \<and> mode start_bare = ACTIVE \<and> videoEl start_bare = None
   \<and> overlayEl start_bare = None \<and> waits start_bare = [1]"
  by (simp add: start_bare_def step_def onMessage_def boot_def env_bare_def applySettings_def
      tryStartActive_def wait_def injectIfReady_def setState_def MAX_ATTEMPTS_def or_else_def)

text \<open>
  C3, amended: leaving the recovery timer aside, a handler moves the mode from \<open>IDLE\<close> to
  \<open>ACTIVE\<close> only if it is a \<^verbatim>\<open>SETTINGS_CHANGED\<close> or \<^verbatim>\<open>START_TRANSLATION\<close> message or a
  navigation, and the engine is enabled afterwards; playback events, settlements of backend
  calls and attach-retry timers never do. The start sequence sets \<open>ACTIVE\<close> at once, before
  the attach: when the player or the video is missing the mode is \<open>ACTIVE\<close>, nothing is
  attached and a retry is armed; when the twentieth probe fails the mode becomes \<open>ERROR\<close>.
\<close>

theorem idle_to_active_only_by_start:
  "(mode w = IDLE \<and> mode (step e ev w) = ACTIVE \<and> ev \<noteq> RecoveryTimer \<longrightarrow>
      enabled (step e ev w)
      \<and> ((\<exists>st. ev = Message (SETTINGS_CHANGED st)) \<or> (\<exists>st. ev = Message (START_TRANSLATION st))
           \<or> ev = UrlMaybeChanged))
   \<and> (enabled w \<and> (playerShell e = None \<or> videoNode e = None) \<longrightarrow>
        mode (tryStartActive e w) = ACTIVE \<and> videoEl (tryStartActive e w) = videoEl w
        \<and> waits (tryStartActive e w) = waits w @ [1])
   \<and> (i < length (waits w) \<and> waits w ! i = 19 \<and> (playerShell e = None \<or> videoNode e = None) \<longrightarrow>
        mode (step e (WaitTimer i) w) = ERROR)"
proof -
  have p1: "enabled (step e ev w)
      \<and> ((\<exists>st. ev = Message (SETTINGS_CHANGED st)) \<or> (\<exists>st. ev = Message (START_TRANSLATION st))
           \<or> ev = UrlMaybeChanged)"
    if a: "mode w = IDLE \<and> mode (step e ev w) = ACTIVE \<and> ev \<noteq> RecoveryTimer"
  proof (cases ev)
    case (Message m)
    with a onMessage_active [of w e m] show ?thesis by (simp add: step_def)
  next
    case UrlMaybeChanged
    with a onUrlMaybeChanged_active [of w e] show ?thesis by (simp add: step_def)
  next
    case (ChunksSettled c out)
    with a settled_mode(1) [of c out w] show ?thesis by (auto simp: step_def)
  next
    case (TranslateSettled c out)
    with a settled_mode(2) [of e c out w] show ?thesis by (auto simp: step_def)
  next
    case (WaitTimer i)
    with a onWaitTimer_mode [of e i w] show ?thesis by (auto simp: step_def)
  qed (use a in \<open>auto simp: step_def\<close>)
  have p2: "mode (tryStartActive e w) = ACTIVE \<and> videoEl (tryStartActive e w) = videoEl w
      \<and> waits (tryStartActive e w) = waits w @ [1]"
    if "enabled w \<and> (playerShell e = None \<or> videoNode e = None)"
    using that tryStartActive_no_player [of w e] by blast
  have p3: "mode (step e (WaitTimer i) w) = ERROR"
    if "i < length (waits w) \<and> waits w ! i = 19 \<and> (playerShell e = None \<or> videoNode e = None)"
    using that last_attempt_fails [of i w e] by (simp add: step_def)
  from p1 p2 p3 show ?thesis by blast
qed

theorem idle_to_active_only_by_start_witness:
  "mode (boot env_bare) = IDLE
   \<and> mode (step env_bare (Message (START_TRANSLATION None)) (boot env_bare)) = ACTIVE
   \<and> Message (START_TRANSLATION None) \<noteq> RecoveryTimer
   \<and> enabled (step env_bare (Message (START_TRANSLATION None)) (boot env_bare))
   \<and> enabled start_bare \<and> playerShell env_bare = None
   \<and> waits (tryStartActive env_bare start_bare) = [1, 1]
   \<and> 0 < length (waits (start_bare\<lparr>waits := [19]\<rparr>)) \<and> waits (start_bare\<lparr>waits := [19]\<rparr>) ! 0 = 19
   \<and> mode (step env_bare (WaitTimer 0) (start_bare\<lparr>waits := [19]\<rparr>)) = ERROR"
  using idle_to_active_only_by_start [of "boot env_bare" env_bare "Message (START_TRANSLATION None)"]
    idle_to_active_only_by_start [of start_bare env_bare]
    idle_to_active_only_by_start [of "start_bare\<lparr>waits := [19]\<rparr>" env_bare _ 0]
  by (simp add: start_bare_def step_def onMessage_def boot_def env_bare_def applySettings_def
      tryStartActive_def wait_def injectIfReady_def setState_def MAX_ATTEMPTS_def or_else_def)

text \<open>
  The recovery timer, which the amended C3 leaves aside, is never cleared: armed by a failed
  fetch, it still fires after a stop command and sets the mode from \<open>IDLE\<close> to \<open>ACTIVE\<close>.
\<close>

lemma recovery_timer_outlives_stop:
  "mode (run (take 3 stop_then_timer) (boot (env_at 1000))) = IDLE
   \<and> mode (run stop_then_timer (boot (env_at 1000))) = ACTIVE"
  using started_eq
  by (simp add: stop_then_timer_def started_def step_def onChunksSettled_def settle_def
      catchHydration_def setState_def onMessage_def stopAll_def abortInflight_def
      removeOverlayAndListeners_def onRecoveryTimer_def Let_def setCaptionText_def boot_def)

subsection \<open>Failure of a backend call\<close>

text \<open>
  C4: when the backend call a live promise chain waits for fails (the controller was not
  aborted), the handler sets the mode to \<open>ERROR\<close>, sets the caption to the empty string and
  arms one recovery timer, and that timer, when it fires, sets the mode to \<open>ACTIVE\<close> with no
  command involved. When the controller was aborted the settlement, whatever it is, changes
  neither mode, caption, timers nor cache. (The length of the delay, 1200 ms, is a matter of
  the browser's clock and is not part of the model.)
\<close>

theorem backend_failure_enters_error_and_recovers:
  "pending w c = Some r \<longrightarrow>
     (c \<notin> aborted w \<longrightarrow>
        (let w' = (if r_stage r = Chunks then step e (ChunksSettled c Failed) w
                   else step e (TranslateSettled c Failed) w)
         in mode w' = ERROR
            \<and> overlayEl w' = map_option (\<lambda>ov. (fst ov, [])) (overlayEl w)
            \<and> recoveries w' = Suc (recoveries w)
            \<and> mode (step e' RecoveryTimer w') = ACTIVE))
   \<and> (c \<in> aborted w \<longrightarrow>
        (let w' = (if r_stage r = Chunks then step e (ChunksSettled c out) w
                   else step e (TranslateSettled c out) w)
         in mode w' = mode w \<and> overlayEl w' = overlayEl w \<and> recoveries w' = recoveries w
            \<and> cache w' = cache w))"
  by (cases "r_stage r")
    (auto simp: step_def onChunksSettled_def onTranslateSettled_def settle_def
      catchHydration_def setState_def onRecoveryTimer_def Let_def)

theorem backend_failure_enters_error_and_recovers_witness:
  "pending started 0 = Some \<lparr>r_ckey = ''v|en|3'', r_t = 3, r_stage = Chunks\<rparr>
   \<and> 0 \<notin> aborted started
   \<and> mode started = ACTIVE
   \<and> mode (step (env_at 1300) (ChunksSettled 0 Failed) started) = ERROR
   \<and> overlayEl (step (env_at 1300) (ChunksSettled 0 Failed) started) = Some (1, [])
   \<and> recoveries (step (env_at 1300) (ChunksSettled 0 Failed) started) = 1
   \<and> mode (step (env_at 2500) RecoveryTimer
        (step (env_at 1300) (ChunksSettled 0 Failed) started)) = ACTIVE
   \<and> pending (stopAll started) 0 = Some \<lparr>r_ckey = ''v|en|3'', r_t = 3, r_stage = Chunks\<rparr>
   \<and> 0 \<in> aborted (stopAll started)
   \<and> mode (step (env_at 1300) (ChunksSettled 0 Failed) (stopAll started)) = IDLE
   \<and> recoveries (step (env_at 1300) (ChunksSettled 0 Failed) (stopAll started)) = 0"
  using backend_failure_enters_error_and_recovers
      [of started 0 "\<lparr>r_ckey = ''v|en|3'', r_t = 3, r_stage = Chunks\<rparr>" "env_at 1300"
          "env_at 2500" Failed]
    backend_failure_enters_error_and_recovers
      [of "stopAll started" 0 "\<lparr>r_ckey = ''v|en|3'', r_t = 3, r_stage = Chunks\<rparr>" "env_at 1300"
          "env_at 2500" Failed]
  by (simp add: started_eq boot_def stopAll_def abortInflight_def setState_def
      removeOverlayAndListeners_def Let_def)

subsection \<open>Throttling\<close>

text \<open>
  C5, as the claim states it, fails for seeking: \<^verbatim>\<open>seeked\<close> is bound to \<^verbatim>\<open>onTimeTick\<close> itself and
  nothing resets \<^verbatim>\<open>lastTickAt\<close>. After a tick processed at 1000 ms, a \<^verbatim>\<open>seeked\<close> event at
  1100 ms is dropped: the world, \<^verbatim>\<open>lastTickAt\<close> included, is what it was.
\<close>

theorem seek_is_throttled:
  "mode started = ACTIVE \<and> videoEl started = Some 2 \<and> lastTickAt started = 1000
   \<and> step (env_at 1100) Seeked started = started"
  by (simp add: started_eq step_def boot_def env_at_def onTimeTick_def TICK_HZ_def)

text \<open>
  C5, amended: a \<^verbatim>\<open>timeupdate\<close> or \<^verbatim>\<open>seeked\<close> event that arrives less than \<open>1000 / TICK_HZ\<close> ms
  after the last processed tick is dropped and changes nothing; one that is processed
  records its time in \<^verbatim>\<open>lastTickAt\<close>, so of two such events within the interval the second
  is dropped when the first was processed. Only \<^verbatim>\<open>ratechange\<close> sets \<^verbatim>\<open>lastTickAt\<close> to zero
  before it ticks, and that tick is processed whenever \<^verbatim>\<open>performance.now()\<close> is at
  least \<open>1000 / TICK_HZ\<close>.
\<close>

theorem throttle_and_rate_change:
  "(perfNow e - lastTickAt w < 1000 / TICK_HZ \<longrightarrow>
      step e TimeUpdate w = w \<and> step e Seeked w = w)
   \<and> (videoEl w \<noteq> None \<and> mode w = ACTIVE \<and> \<not> perfNow e - lastTickAt w < 1000 / TICK_HZ \<longrightarrow>
      lastTickAt (step e TimeUpdate w) = perfNow e \<and> lastTickAt (step e Seeked w) = perfNow e)
   \<and> onTimeTick e (w\<lparr>lastTickAt := 0\<rparr>) = step e RateChange w
   \<and> (videoEl w \<noteq> None \<and> mode w = ACTIVE \<and> 1000 / TICK_HZ \<le> perfNow e \<longrightarrow>
      lastTickAt (step e RateChange w) = perfNow e)"
  by (simp add: step_def onTimeTick_dropped onTimeTick_accepted)

theorem throttle_and_rate_change_witness:
  "perfNow (env_at 1100) - lastTickAt started < 1000 / TICK_HZ
   \<and> step (env_at 1100) TimeUpdate started = started
   \<and> videoEl started \<noteq> None \<and> mode started = ACTIVE
   \<and> \<not> perfNow (env_at 1300) - lastTickAt started < 1000 / TICK_HZ
   \<and> lastTickAt (step (env_at 1300) TimeUpdate started) = 1300
   \<and> 1000 / TICK_HZ \<le> perfNow (env_at 1100)
   \<and> lastTickAt (step (env_at 1100) RateChange started) = 1100"
proof -
  have f: "lastTickAt started = 1000" "videoEl started = Some 2" "mode started = ACTIVE"
    "perfNow (env_at 1100) = 1100" "perfNow (env_at 1300) = 1300"
    by (simp_all add: started_eq env_at_def)
  show ?thesis
    using throttle_and_rate_change [of "env_at 1100" started]
      throttle_and_rate_change [of "env_at 1300" started]
    by (simp add: f TICK_HZ_def)
qed

subsection \<open>Line selection\<close>

lemma find_first_sorted:
  assumes "sorted (map f xs)" "find P xs = Some x" "y \<in> set xs" "P y"
  shows "f x \<le> f y"
  using assms
proof (induction xs)
  case Nil
  then show ?case by simp
next
  case (Cons a xs)
  then show ?case by (auto split: if_splits)
qed

lemma window_examples:
  "windowText [lineA, lineB] 11 = ''A''"
  "windowText [lineA, lineB] 13 = ''B''"
  "windowText [lineA, lineB, lineC] 17 = ''C''"
  "windowText [lineA, lineB] 20 = ''''"
  by (simp_all add: windowText_def pickLine_def spans_def ahead_def lineA_def lineB_def
      lineC_def CHUNK_AHEAD_SEC_def)

text \<open>
  C6: for a window sorted by start time and any time \<open>t\<close>, \<^verbatim>\<open>renderFromWindow\<close> hands to
  \<^verbatim>\<open>setCaptionText\<close> the text of a line with \<open>start \<le> t < end\<close> if there is one; if there is
  none, the text of a line that has the smallest \<open>start - t\<close> among the lines with
  \<open>0 < start - t \<le> 2\<close>, if there is one; and the empty string otherwise.
\<close>

theorem renderFromWindow_selects:
  assumes "sorted (map ln_start lines)"
  shows "((\<exists>l\<in>set lines. ln_start l \<le> t \<and> t < ln_end l) \<longrightarrow>
            (\<exists>l\<in>set lines. ln_start l \<le> t \<and> t < ln_end l
               \<and> renderFromWindow lines t w = setCaptionText (ln_text l) w))
       \<and> (\<not> (\<exists>l\<in>set lines. ln_start l \<le> t \<and> t < ln_end l)
            \<and> (\<exists>l\<in>set lines. 0 < ln_start l - t \<and> ln_start l - t \<le> 2) \<longrightarrow>
            (\<exists>l\<in>set lines. 0 < ln_start l - t \<and> ln_start l - t \<le> 2
               \<and> (\<forall>l'\<in>set lines. 0 < ln_start l' - t \<and> ln_start l' - t \<le> 2
                     \<longrightarrow> ln_start l - t \<le> ln_start l' - t)
               \<and> renderFromWindow lines t w = setCaptionText (ln_text l) w))
       \<and> (\<not> (\<exists>l\<in>set lines. ln_start l \<le> t \<and> t < ln_end l)
            \<and> \<not> (\<exists>l\<in>set lines. 0 < ln_start l - t \<and> ln_start l - t \<le> 2) \<longrightarrow>
            renderFromWindow lines t w = setCaptionText [] w)"
proof (intro conjI impI)
  assume "\<exists>l\<in>set lines. ln_start l \<le> t \<and> t < ln_end l"
  then have "\<exists>l\<in>set lines. spans t l" by (simp add: spans_def)
  then obtain l where f: "find (spans t) lines = Some l"
    by (cases "find (spans t) lines") (auto simp: find_None_iff)
  then have "l \<in> set lines" "spans t l"
    by (auto simp: find_Some_iff)
  with f show "\<exists>l\<in>set lines. ln_start l \<le> t \<and> t < ln_end l
      \<and> renderFromWindow lines t w = setCaptionText (ln_text l) w"
    by (auto simp: renderFromWindow_def windowText_def pickLine_def spans_def)
next
  assume a: "\<not> (\<exists>l\<in>set lines. ln_start l \<le> t \<and> t < ln_end l)
    \<and> (\<exists>l\<in>set lines. 0 < ln_start l - t \<and> ln_start l - t \<le> 2)"
  then have n: "find (spans t) lines = None"
    by (auto simp: find_None_iff spans_def)
  from a have "\<exists>l\<in>set lines. ahead t l" by (auto simp: ahead_def CHUNK_AHEAD_SEC_def)
  then obtain l where f: "find (ahead t) lines = Some l"
    by (cases "find (ahead t) lines") (auto simp: find_None_iff)
  then have m: "l \<in> set lines" "ahead t l"
    by (auto simp: find_Some_iff)
  have least: "ln_start l \<le> ln_start l'" if "l' \<in> set lines" "ahead t l'" for l'
    using find_first_sorted [OF assms f that] .
  have "renderFromWindow lines t w = setCaptionText (ln_text l) w"
    using n f by (simp add: renderFromWindow_def windowText_def pickLine_def)
  with m least show "\<exists>l\<in>set lines. 0 < ln_start l - t \<and> ln_start l - t \<le> 2
      \<and> (\<forall>l'\<in>set lines. 0 < ln_start l' - t \<and> ln_start l' - t \<le> 2
            \<longrightarrow> ln_start l - t \<le> ln_start l' - t)
      \<and> renderFromWindow lines t w = setCaptionText (ln_text l) w"
    by (intro bexI [of _ l]) (auto simp: ahead_def CHUNK_AHEAD_SEC_def)
next
  assume a: "\<not> (\<exists>l\<in>set lines. ln_start l \<le> t \<and> t < ln_end l)
    \<and> \<not> (\<exists>l\<in>set lines. 0 < ln_start l - t \<and> ln_start l - t \<le> 2)"
  then have "find (spans t) lines = None" "find (ahead t) lines = None"
    by (auto simp: find_None_iff spans_def ahead_def CHUNK_AHEAD_SEC_def)
  then show "renderFromWindow lines t w = setCaptionText [] w"
    by (simp add: renderFromWindow_def windowText_def pickLine_def)
qed

theorem renderFromWindow_selects_witness:
  "sorted (map ln_start [lineA, lineB, lineC])
   \<and> overlayEl (renderFromWindow [lineA, lineB, lineC] 11 started) = Some (1, ''A'')
   \<and> overlayEl (renderFromWindow [lineA, lineB, lineC] 13 started) = Some (1, ''B'')
   \<and> overlayEl (renderFromWindow [lineA, lineB, lineC] 17 started) = Some (1, ''C'')
   \<and> overlayEl (renderFromWindow [lineA, lineB, lineC] 22 started) = Some (1, '''')"
proof -
  have s: "sorted (map ln_start [lineA, lineB, lineC])"
    by (simp add: lineA_def lineB_def lineC_def)
  show ?thesis
    using s renderFromWindow_selects [OF s, of 11 started]
      renderFromWindow_selects [OF s, of 13 started]
      renderFromWindow_selects [OF s, of 17 started]
      renderFromWindow_selects [OF s, of 22 started]
    by (simp add: lineA_def lineB_def lineC_def started_eq boot_def setCaptionText_def)
qed

subsection \<open>Cache lookups\<close>

text \<open>
  C8: \<^verbatim>\<open>cacheGet\<close> returns data only from an entry whose timestamp plus the TTL is not before
  now, and leaves the cache as it was; a lookup of an entry older than the TTL deletes the
  entry and returns a miss.
\<close>

theorem cacheGet_never_stale:
  "(\<forall>data c'. cacheGet key now c = (Some data, c') \<longrightarrow>
      (\<exists>ts. map_of c key = Some (ts, data) \<and> now \<le> ts + CACHE_TTL_MS) \<and> c' = c)
   \<and> (\<forall>ts data. map_of c key = Some (ts, data) \<and> ts + CACHE_TTL_MS < now \<longrightarrow>
         cacheGet key now c = (None, AList.delete key c)
         \<and> map_of (snd (cacheGet key now c)) key = None)"
  by (auto simp: cacheGet_def AList.delete_conv' split: option.splits if_splits)

theorem cacheGet_never_stale_witness:
  "cacheGet ''v|en|3'' 1000 [(''v|en|3'', (0, []))] = (Some [], [(''v|en|3'', (0, []))])
   \<and> (1000::real) \<le> 0 + CACHE_TTL_MS
   \<and> (0::real) + CACHE_TTL_MS < 120001
   \<and> cacheGet ''v|en|3'' 120001 [(''v|en|3'', (0, []))] = (None, [])"
  using cacheGet_never_stale [of "''v|en|3''" 1000 "[(''v|en|3'', (0, []))]"]
    cacheGet_never_stale [of "''v|en|3''" 120001 "[(''v|en|3'', (0, []))]"]
  by (simp add: cacheGet_def CACHE_TTL_MS_def)

subsection \<open>Settings\<close>

text \<open>
  C10: a \<^verbatim>\<open>SETTINGS_CHANGED\<close> or \<^verbatim>\<open>START_TRANSLATION\<close> message whose language is the empty
  string leaves \<^verbatim>\<open>state.language\<close> as it was, and one whose hint is the empty string leaves
  \<^verbatim>\<open>state.hint\<close> as it was; no message makes a language or hint that is not empty empty.
\<close>

theorem empty_setting_keeps_previous:
  "(m = SETTINGS_CHANGED (Some st) \<or> m = START_TRANSLATION (Some st) \<longrightarrow>
      (s_language st = Some [] \<longrightarrow> language (onMessage e m w) = language w)
    \<and> (s_hint st = Some [] \<longrightarrow> hint (onMessage e m w) = hint w))
   \<and> (hint w \<noteq> [] \<longrightarrow> hint (onMessage e m w) \<noteq> [])
   \<and> (language w \<noteq> [] \<longrightarrow> language (onMessage e m w) \<noteq> [])"
  by (cases m) (auto simp: onMessage_def applySettings_def or_else_def Let_def
      split: option.splits)

theorem empty_setting_keeps_previous_witness:
  "hint (started\<lparr>hint := ''medical''\<rparr>) \<noteq> []
   \<and> s_hint \<lparr>s_enabled = Some True, s_language = Some [], s_hint = Some []\<rparr> = Some []
   \<and> hint (onMessage (env_at 2000)
        (SETTINGS_CHANGED (Some \<lparr>s_enabled = Some True, s_language = Some [], s_hint = Some []\<rparr>))
        (started\<lparr>hint := ''medical''\<rparr>)) = ''medical''
   \<and> language (onMessage (env_at 2000)
        (SETTINGS_CHANGED (Some \<lparr>s_enabled = Some True, s_language = Some [], s_hint = Some []\<rparr>))
        (started\<lparr>hint := ''medical''\<rparr>)) = ''en''"
  using empty_setting_keeps_previous
    [of "SETTINGS_CHANGED (Some \<lparr>s_enabled = Some True, s_language = Some [], s_hint = Some []\<rparr>)"
        "\<lparr>s_enabled = Some True, s_language = Some [], s_hint = Some []\<rparr>" "env_at 2000"
        "started\<lparr>hint := ''medical''\<rparr>"]
  by (simp add: started_eq boot_def)


subsection \<open>One request at a time\<close>

lemma sf_boot: "single_flight (boot e)"
  by (simp add: single_flight_def live_def boot_def)

lemma sf_setCaptionText [simp]: "single_flight (setCaptionText t w) = single_flight w"
  by (simp add: single_flight_def live_def)

lemma sf_onTimeTick: "single_flight w \<Longrightarrow> single_flight (onTimeTick e w)"
  unfolding onTimeTick_def Let_def renderFromWindow_def abortInflight_def
  by (auto simp: single_flight_def live_def less_Suc_eq split: option.splits)

lemma sf_stopAll: "single_flight w \<Longrightarrow> single_flight (stopAll w)"
  unfolding stopAll_def removeOverlayAndListeners_def abortInflight_def setState_def
  by (auto simp: single_flight_def live_def split: option.splits)

lemma sf_lastTickAt [simp]: "single_flight (w\<lparr>lastTickAt := x\<rparr>) = single_flight w"
  by (simp add: single_flight_def live_def)

lemma sf_wait: "single_flight w \<Longrightarrow> single_flight (wait e a w)"
proof -
  assume a: "single_flight w"
  have i: "single_flight (snd (injectIfReady e w))" "mode (snd (injectIfReady e w)) = mode w"
    using a by (auto simp: injectIfReady_def single_flight_def live_def split: option.splits)
  show ?thesis
    using i a sf_onTimeTick [of "(snd (injectIfReady e w))\<lparr>lastTickAt := 0\<rparr>" e]
    by (auto simp: wait_def Let_def setState_def single_flight_def live_def)
qed

lemma sf_tryStartActive: "single_flight w \<Longrightarrow> single_flight (tryStartActive e w)"
proof -
  assume a: "single_flight w"
  then have "single_flight (setState ACTIVE w)"
    by (auto simp: setState_def single_flight_def live_def)
  then show ?thesis using a by (simp add: tryStartActive_def sf_wait)
qed

lemma sf_resetForNavigation: "single_flight w \<Longrightarrow> single_flight (resetForNavigation e w)"
  using sf_stopAll [of w]
  by (auto simp: resetForNavigation_def Let_def single_flight_def live_def)

lemma sf_onUrlMaybeChanged: "single_flight w \<Longrightarrow> single_flight (onUrlMaybeChanged e w)"
proof -
  assume a: "single_flight w"
  then have "single_flight (w\<lparr>lastUrl := href e\<rparr>)" by (simp add: single_flight_def live_def)
  then show ?thesis
    using a by (simp add: onUrlMaybeChanged_def Let_def sf_resetForNavigation sf_tryStartActive)
qed

lemma sf_onMessage: "single_flight w \<Longrightarrow> single_flight (onMessage e m w)"
proof (cases m)
  case (SETTINGS_CHANGED st)
  assume a: "single_flight w"
  define w2 where "w2 = applySettings st
       (w\<lparr>enabled := (case st of None \<Rightarrow> False | Some x \<Rightarrow> s_enabled x = Some True)\<rparr>)"
  have "single_flight w2" using a by (simp add: w2_def applySettings_def single_flight_def live_def)
  then show ?thesis
    using SETTINGS_CHANGED by (simp add: onMessage_def Let_def w2_def [symmetric] sf_tryStartActive sf_stopAll)
next
  case (START_TRANSLATION st)
  assume a: "single_flight w"
  define w3 where "w3 = (applySettings st (w\<lparr>enabled := True\<rparr>))\<lparr>videoId := urlVideoId e\<rparr>"
  have "single_flight w3" using a by (simp add: w3_def applySettings_def single_flight_def live_def)
  then show ?thesis
    using START_TRANSLATION by (simp add: onMessage_def Let_def w3_def [symmetric] sf_tryStartActive)
qed (simp_all add: onMessage_def sf_stopAll)

lemma others_dead:
  assumes "single_flight w" "pending w c \<noteq> None" "c \<notin> aborted w"
  shows "\<forall>ca. ca \<noteq> c \<longrightarrow> pending w ca = None \<or> ca \<in> aborted w"
proof (intro allI impI)
  fix ca assume n: "ca \<noteq> c"
  from assms obtain k where k: "inflight w = Some (c, k)"
    by (auto simp: single_flight_def live_def)
  show "pending w ca = None \<or> ca \<in> aborted w"
  proof (rule ccontr)
    assume "\<not> (pending w ca = None \<or> ca \<in> aborted w)"
    then have "live w ca" by (simp add: live_def)
    with assms(1) obtain k' where "inflight w = Some (ca, k')"
      by (auto simp: single_flight_def)
    with k n show False by simp
  qed
qed

lemma sf_onChunksSettled: "single_flight w \<Longrightarrow> single_flight (onChunksSettled c out w)"
proof -
  assume a: "single_flight w"
  show ?thesis
  proof (cases "pending w c \<noteq> None \<and> c \<notin> aborted w")
    case True
    from others_dead [OF a] True a show ?thesis
      unfolding onChunksSettled_def settle_def catchHydration_def thenChunks_def setState_def
        Let_def
      by (auto simp: single_flight_def live_def split: option.splits outcome.splits)
  next
    case False
    with a show ?thesis
      unfolding onChunksSettled_def settle_def catchHydration_def thenChunks_def setState_def
        Let_def
      by (auto simp: single_flight_def live_def split: option.splits outcome.splits)
  qed
qed

lemma sf_onTranslateSettled: "single_flight w \<Longrightarrow> single_flight (onTranslateSettled e c out w)"
proof -
  assume a: "single_flight w"
  show ?thesis
  proof (cases "pending w c \<noteq> None \<and> c \<notin> aborted w")
    case True
    from others_dead [OF a] True a show ?thesis
      unfolding onTranslateSettled_def settle_def catchHydration_def thenTranslated_def
        setState_def Let_def renderFromWindow_def
      by (auto simp: single_flight_def live_def split: option.splits outcome.splits)
  next
    case False
    with a show ?thesis
      unfolding onTranslateSettled_def settle_def catchHydration_def thenTranslated_def
        setState_def Let_def renderFromWindow_def
      by (auto simp: single_flight_def live_def split: option.splits outcome.splits)
  qed
qed

lemma sf_onRecoveryTimer: "single_flight w \<Longrightarrow> single_flight (onRecoveryTimer w)"
  by (auto simp: onRecoveryTimer_def setState_def single_flight_def live_def)

lemma sf_onWaitTimer: "single_flight w \<Longrightarrow> single_flight (onWaitTimer e i w)"
proof -
  assume a: "single_flight w"
  then have "single_flight (w\<lparr>waits := take i (waits w) @ drop (Suc i) (waits w)\<rparr>)"
    by (simp add: single_flight_def live_def)
  then show ?thesis using a by (simp add: onWaitTimer_def sf_wait)
qed

lemma sf_step: "single_flight w \<Longrightarrow> single_flight (step e ev w)"
  by (cases ev)
    (simp_all add: step_def sf_onTimeTick sf_onMessage sf_onUrlMaybeChanged sf_onChunksSettled
      sf_onTranslateSettled sf_onRecoveryTimer sf_onWaitTimer)

lemma reachable_single_flight: "reachable w \<Longrightarrow> single_flight w"
  by (induction rule: reachable.induct) (simp_all add: sf_boot sf_step)

lemma aborted_onTimeTick: "aborted w \<subseteq> aborted (onTimeTick e w)"
  unfolding onTimeTick_def Let_def renderFromWindow_def abortInflight_def
  by (auto split: option.splits)

lemma aborted_wait: "aborted w \<subseteq> aborted (wait e a w)"
  using aborted_onTimeTick [of "(snd (injectIfReady e w))\<lparr>lastTickAt := 0\<rparr>" e]
  by (auto simp: wait_def Let_def setState_def injectIfReady_def split: option.splits)

lemma aborted_tryStartActive: "aborted w \<subseteq> aborted (tryStartActive e w)"
  using aborted_wait [of "setState ACTIVE w" e 0]
  by (auto simp: tryStartActive_def setState_def split: if_splits)

lemma aborted_abortInflight:
  "aborted (abortInflight w) =
     (case inflight w of None \<Rightarrow> aborted w | Some fl \<Rightarrow> insert (fst fl) (aborted w))"
  by (simp add: abortInflight_def split: option.splits)

lemma aborted_stopAll: "aborted (stopAll w) = aborted (abortInflight w)"
  by (simp add: stopAll_def removeOverlayAndListeners_def abortInflight_def setState_def
      split: option.splits)

lemma aborted_resetForNavigation: "aborted (resetForNavigation e w) = aborted (stopAll w)"
  by (simp add: resetForNavigation_def Let_def)

lemma aborted_onUrlMaybeChanged: "aborted w \<subseteq> aborted (onUrlMaybeChanged e w)"
  using aborted_tryStartActive [of "resetForNavigation e (w\<lparr>lastUrl := href e\<rparr>)" e]
  by (auto simp: onUrlMaybeChanged_def Let_def aborted_resetForNavigation aborted_stopAll
      aborted_abortInflight split: option.splits)

lemma aborted_onMessage: "aborted w \<subseteq> aborted (onMessage e m w)"
proof (cases m)
  case (SETTINGS_CHANGED st)
  then show ?thesis
    using aborted_tryStartActive [of "applySettings st
       (w\<lparr>enabled := (case st of None \<Rightarrow> False | Some x \<Rightarrow> s_enabled x = Some True)\<rparr>)" e]
    by (auto simp: onMessage_def Let_def aborted_stopAll aborted_abortInflight applySettings_def
        split: option.splits)
next
  case (START_TRANSLATION st)
  then show ?thesis
    using aborted_tryStartActive
      [of "(applySettings st (w\<lparr>enabled := True\<rparr>))\<lparr>videoId := urlVideoId e\<rparr>" e]
    by (auto simp: onMessage_def Let_def applySettings_def)
qed (auto simp: onMessage_def aborted_stopAll aborted_abortInflight split: option.splits)

lemma aborted_settled:
  "aborted (onChunksSettled c out w) = aborted w"
  "aborted (onTranslateSettled e c out w) = aborted w"
  by (auto simp: onChunksSettled_def onTranslateSettled_def settle_def catchHydration_def
      thenChunks_def thenTranslated_def setState_def renderFromWindow_def Let_def
      split: option.splits outcome.splits)

lemma aborted_onWaitTimer: "aborted w \<subseteq> aborted (onWaitTimer e i w)"
  using aborted_wait [of "w\<lparr>waits := take i (waits w) @ drop (Suc i) (waits w)\<rparr>" e "waits w ! i"]
  by (auto simp: onWaitTimer_def)

lemma aborted_step: "aborted w \<subseteq> aborted (step e ev w)"
proof (cases ev)
  case RateChange
  then show ?thesis using aborted_onTimeTick [of "w\<lparr>lastTickAt := 0\<rparr>" e] by (simp add: step_def)
qed (simp_all add: step_def aborted_onTimeTick aborted_onMessage aborted_onUrlMaybeChanged
      aborted_settled aborted_onWaitTimer onRecoveryTimer_def setState_def)

lemma aborted_run: "aborted w \<subseteq> aborted (run es w)"
proof (induction es arbitrary: w)
  case Nil
  then show ?case by simp
next
  case (Cons x es)
  from aborted_step [of w "fst x" "snd x"] Cons [of "step (fst x) (snd x) w"]
  show ?case by auto
qed

lemma reachable_run: "reachable w \<Longrightarrow> reachable (run es w)"
  by (induction es arbitrary: w) (auto intro: reach_step)

lemma settled_when_aborted:
  assumes "c \<in> aborted w"
  shows "\<exists>p. onChunksSettled c out w = w\<lparr>pending := p\<rparr>"
    and "\<exists>p. onTranslateSettled e c out w = w\<lparr>pending := p\<rparr>"
proof -
  have "onChunksSettled c out w = w\<lparr>pending := pending w\<rparr>
      \<or> onChunksSettled c out w = w\<lparr>pending := (pending w)(c := None)\<rparr>"
    using assms by (auto simp: onChunksSettled_def settle_def catchHydration_def Let_def
        split: option.splits)
  then show "\<exists>p. onChunksSettled c out w = w\<lparr>pending := p\<rparr>" by blast
  have "onTranslateSettled e c out w = w\<lparr>pending := pending w\<rparr>
      \<or> onTranslateSettled e c out w = w\<lparr>pending := (pending w)(c := None)\<rparr>"
    using assms by (auto simp: onTranslateSettled_def settle_def catchHydration_def Let_def
        split: option.splits)
  then show "\<exists>p. onTranslateSettled e c out w = w\<lparr>pending := p\<rparr>" by blast
qed

lemma superseded_is_aborted:
  assumes "reachable w" "pending w c \<noteq> None" "\<forall>k. inflight w \<noteq> Some (c, k)"
  shows "c \<in> aborted w"
proof (rule ccontr)
  assume "c \<notin> aborted w"
  with assms(2) have "live w c" by (simp add: live_def)
  with reachable_single_flight [OF assms(1)] obtain k where "inflight w = Some (c, k)"
    by (auto simp: single_flight_def)
  with assms(3) show False by simp
qed

text \<open>
  C1: a request that has been superseded or cancelled (it is still pending but it is not the
  one recorded in \<^verbatim>\<open>state.inflight\<close>: a newer tick started another request, or a stop,
  disable or navigation cleared the record) never takes effect. Whatever happens afterwards
  and whenever and however either of its backend calls settles, the settlement writes nothing
  to the cache, does not touch the caption and does not change the mode; it changes nothing
  but the browser's set of pending promises.
\<close>
theorem superseded_result_never_applied:
  assumes "reachable w" "pending w c \<noteq> None" "\<forall>k. inflight w \<noteq> Some (c, k)"
    and "ev = ChunksSettled c out \<or> ev = TranslateSettled c out"
  shows "cache (step e ev (run es w)) = cache (run es w)
       \<and> overlayEl (step e ev (run es w)) = overlayEl (run es w)
       \<and> mode (step e ev (run es w)) = mode (run es w)
       \<and> (\<exists>p. step e ev (run es w) = (run es w)\<lparr>pending := p\<rparr>)"
proof -
  have "c \<in> aborted w" using superseded_is_aborted [OF assms(1-3)] .
  with aborted_run [of w es] have a: "c \<in> aborted (run es w)" by auto
  have "\<exists>p. step e ev (run es w) = (run es w)\<lparr>pending := p\<rparr>"
    using settled_when_aborted(1) [OF a, of out] settled_when_aborted(2) [OF a, of e out] assms(4)
    by (auto simp: step_def)
  then obtain p where p: "step e ev (run es w) = (run es w)\<lparr>pending := p\<rparr>" ..
  have "cache (step e ev (run es w)) = cache (run es w)"
    "overlayEl (step e ev (run es w)) = overlayEl (run es w)"
    "mode (step e ev (run es w)) = mode (run es w)"
    by (simp_all add: p)
  with p show ?thesis by blast
qed

lemma retick_eq:
  "retick = started\<lparr>lastTickAt := 1300, aborted := {0}, inflight := Some (1, Chunks),
     pending := [0 \<mapsto> \<lparr>r_ckey = ''v|en|3'', r_t = 3, r_stage = Chunks\<rparr>,
                 1 \<mapsto> \<lparr>r_ckey = ''v|en|3'', r_t = 3, r_stage = Chunks\<rparr>], nextCtrl := 2\<rparr>"
  by (simp add: retick_def started_eq step_def boot_def env_at_def handler_defs Let_def
      truthy_def isAdPlaying_def cacheGet_def cacheKey_def
      show_int_def show_nat.simps digit_char_def TICK_HZ_def)

lemma reachable_started: "reachable started"
  unfolding started_def by (intro reach_step reach_boot)

lemma reachable_retick: "reachable retick"
  unfolding retick_def by (intro reach_step reachable_started)

theorem superseded_result_never_applied_witness:
  "reachable retick \<and> pending retick 0 \<noteq> None \<and> inflight retick = Some (1, Chunks)
   \<and> cache (step (env_at 1400) (ChunksSettled 0 (Resolved [lineA])) retick) = cache retick
   \<and> overlayEl (step (env_at 1400) (ChunksSettled 0 (Resolved [lineA])) retick) = Some (1, [])
   \<and> mode (step (env_at 1400) (ChunksSettled 0 (Resolved [lineA])) retick) = ACTIVE"
proof -
  have f: "pending retick 0 \<noteq> None" "inflight retick = Some (1, Chunks)"
    "overlayEl retick = Some (1, [])" "mode retick = ACTIVE"
    by (simp_all add: retick_eq started_eq boot_def)
  have n: "\<forall>k. inflight retick \<noteq> Some (0, k)"
    by (simp add: f)
  from superseded_result_never_applied [OF reachable_retick f(1) n, of
      "ChunksSettled 0 (Resolved [lineA])" "Resolved [lineA]" "env_at 1400" "[]"]
  show ?thesis using reachable_retick f by simp
qed

lemma onTimeTick_new:
  assumes "nextCtrl (onTimeTick e w) \<noteq> nextCtrl w"
  shows "aborted (onTimeTick e w) = aborted (abortInflight w)"
    and "inflight (onTimeTick e w) = Some (nextCtrl w, Chunks)"
    and "pending (onTimeTick e w) (nextCtrl w) \<noteq> None"
  using assms
  unfolding onTimeTick_def Let_def renderFromWindow_def abortInflight_def
  by (auto split: option.splits if_splits)

lemma old_requests_aborted:
  assumes "single_flight w" "pending w c \<noteq> None \<or> (\<exists>k. inflight w = Some (c, k))"
  shows "c \<in> aborted (abortInflight w)"
proof (cases "\<exists>k. inflight w = Some (c, k)")
  case True
  then show ?thesis by (auto simp: aborted_abortInflight)
next
  case False
  with assms have "\<not> live w c" "pending w c \<noteq> None"
    by (auto simp: single_flight_def)
  then have "c \<in> aborted w" by (simp add: live_def)
  then show ?thesis by (auto simp: aborted_abortInflight split: option.splits)
qed

lemma fresh_not_aborted:
  assumes "single_flight w"
  shows "nextCtrl w \<notin> aborted (abortInflight w)"
  using assms by (fastforce simp: single_flight_def aborted_abortInflight split: option.splits)

lemma tick_supersedes:
  assumes "single_flight w" "nextCtrl (onTimeTick e w) \<noteq> nextCtrl w"
  shows "(\<forall>c. pending w c \<noteq> None \<or> (\<exists>k. inflight w = Some (c, k)) \<longrightarrow> c \<in> aborted (onTimeTick e w))
       \<and> inflight (onTimeTick e w) = Some (nextCtrl w, Chunks)
       \<and> live (onTimeTick e w) (nextCtrl w)"
  using onTimeTick_new [OF assms(2)] old_requests_aborted [OF assms(1)]
    fresh_not_aborted [OF assms(1)]
  by (simp add: live_def)

lemma sf_fields [simp]:
  "single_flight (w\<lparr>lastUrl := u\<rparr>) = single_flight w"
  "single_flight (w\<lparr>enabled := b\<rparr>) = single_flight w"
  "single_flight (applySettings st w) = single_flight w"
  by (simp_all add: single_flight_def live_def applySettings_def)

text \<open>
  What holds of the cancelling in every world the script can reach: there is at most one live
  request, and it is the one recorded in the single field \<^verbatim>\<open>state.inflight\<close>. When a tick (time
  update, seek or rate change) creates a new controller, \<^verbatim>\<open>abort()\<close> has been called on the
  controller recorded before and on every request pending before, and the new request is
  recorded and live. A stop message and a \<^verbatim>\<open>SETTINGS_CHANGED\<close> message that disables the engine
  leave every earlier request aborted and \<^verbatim>\<open>state.inflight\<close> empty; a change of video that goes
  through \<^verbatim>\<open>onUrlMaybeChanged\<close> and \<^verbatim>\<open>resetForNavigation\<close> leaves every earlier request aborted.
\<close>

lemma at_most_one_live_request:
  assumes "reachable w"
  shows "(\<forall>c c'. live w c \<and> live w c' \<longrightarrow> c = c')
       \<and> (\<forall>c. live w c \<longrightarrow> (\<exists>k. inflight w = Some (c, k)))
       \<and> (\<forall>ev. (ev = TimeUpdate \<or> ev = Seeked \<or> ev = RateChange)
               \<and> nextCtrl (step e ev w) \<noteq> nextCtrl w \<longrightarrow>
             (\<forall>c. pending w c \<noteq> None \<or> (\<exists>k. inflight w = Some (c, k))
                   \<longrightarrow> c \<in> aborted (step e ev w))
             \<and> inflight (step e ev w) = Some (nextCtrl w, Chunks)
             \<and> live (step e ev w) (nextCtrl w))
       \<and> (\<forall>m. m = STOP_TRANSLATION
               \<or> (\<exists>st. m = SETTINGS_CHANGED st
                     \<and> (case st of None \<Rightarrow> True | Some x \<Rightarrow> s_enabled x \<noteq> Some True)) \<longrightarrow>
             (\<forall>c. pending w c \<noteq> None \<or> (\<exists>k. inflight w = Some (c, k))
                   \<longrightarrow> c \<in> aborted (step e (Message m) w))
             \<and> inflight (step e (Message m) w) = None)
       \<and> (href e \<noteq> lastUrl w \<and> urlVideoId e \<noteq> videoId w \<longrightarrow>
             (\<forall>c. pending w c \<noteq> None \<or> (\<exists>k. inflight w = Some (c, k))
                   \<longrightarrow> c \<in> aborted (step e UrlMaybeChanged w)))"
proof -
  have sf: "single_flight w" using assms by (rule reachable_single_flight)
  have one: "\<forall>c. live w c \<longrightarrow> (\<exists>k. inflight w = Some (c, k))"
    using sf by (simp add: single_flight_def)
  then have uniq: "\<forall>c c'. live w c \<and> live w c' \<longrightarrow> c = c'"
    by (metis option.inject prod.inject)
  have tick: "(\<forall>c. pending w c \<noteq> None \<or> (\<exists>k. inflight w = Some (c, k))
                   \<longrightarrow> c \<in> aborted (step e ev w))
             \<and> inflight (step e ev w) = Some (nextCtrl w, Chunks)
             \<and> live (step e ev w) (nextCtrl w)"
    if t: "(ev = TimeUpdate \<or> ev = Seeked \<or> ev = RateChange)
       \<and> nextCtrl (step e ev w) \<noteq> nextCtrl w" for ev
  proof (cases "ev = RateChange")
    case True
    have s0: "single_flight (w\<lparr>lastTickAt := 0\<rparr>)" using sf by (simp add: single_flight_def live_def)
    from t True tick_supersedes [OF s0, of e] show ?thesis by (simp add: step_def)
  next
    case False
    with t tick_supersedes [OF sf, of e] show ?thesis by (auto simp: step_def)
  qed
  have stop: "(\<forall>c. pending w c \<noteq> None \<or> (\<exists>k. inflight w = Some (c, k))
                   \<longrightarrow> c \<in> aborted (step e (Message m) w))
             \<and> inflight (step e (Message m) w) = None"
    if m: "m = STOP_TRANSLATION
         \<or> (\<exists>st. m = SETTINGS_CHANGED st
               \<and> (case st of None \<Rightarrow> True | Some x \<Rightarrow> s_enabled x \<noteq> Some True))" for m
  proof (cases "m = STOP_TRANSLATION")
    case True
    with old_requests_aborted [OF sf] show ?thesis
      by (simp add: step_def onMessage_def aborted_stopAll)
  next
    case False
    with m obtain st where st: "m = SETTINGS_CHANGED st"
      "(case st of None \<Rightarrow> True | Some x \<Rightarrow> s_enabled x \<noteq> Some True)" by blast
    define w2 where "w2 = applySettings st
       (w\<lparr>enabled := (case st of None \<Rightarrow> False | Some x \<Rightarrow> s_enabled x = Some True)\<rparr>)"
    have e2: "\<not> enabled w2" using st(2)
      by (simp add: w2_def applySettings_def split: option.splits)
    have same: "pending w2 = pending w" "inflight w2 = inflight w" "aborted w2 = aborted w"
      "mode w2 = mode w"
      by (simp_all add: w2_def applySettings_def)
    have s2: "single_flight w2" using sf by (simp add: w2_def)
    have r: "step e (Message m) w = (if mode w2 \<noteq> IDLE then stopAll w2 else w2)"
      using st(1) e2 by (simp add: step_def onMessage_def Let_def w2_def [symmetric])
    show ?thesis
    proof (cases "mode w2 = IDLE")
      case True
      then have n: "inflight w2 = None" using s2 by (simp add: single_flight_def)
      with old_requests_aborted [OF s2] True r same show ?thesis
        by (simp add: aborted_abortInflight)
    next
      case False
      with old_requests_aborted [OF s2] r same show ?thesis
        by (simp add: aborted_stopAll)
    qed
  qed
  have nav: "\<forall>c. pending w c \<noteq> None \<or> (\<exists>k. inflight w = Some (c, k))
                   \<longrightarrow> c \<in> aborted (step e UrlMaybeChanged w)"
    if n: "href e \<noteq> lastUrl w \<and> urlVideoId e \<noteq> videoId w"
  proof -
    define w1 where "w1 = w\<lparr>lastUrl := href e\<rparr>"
    have s1: "single_flight w1" using sf by (simp add: w1_def)
    have same: "pending w1 = pending w" "inflight w1 = inflight w" "videoId w1 = videoId w"
      by (simp_all add: w1_def)
    have a: "aborted (resetForNavigation e w1) = aborted (abortInflight w1)"
      by (simp add: aborted_resetForNavigation aborted_stopAll)
    have "aborted (resetForNavigation e w1) \<subseteq> aborted (step e UrlMaybeChanged w)"
      using n aborted_tryStartActive [of "resetForNavigation e w1" e] same(3)
      by (simp add: step_def onUrlMaybeChanged_def Let_def w1_def [symmetric])
    with a old_requests_aborted [OF s1] same show ?thesis by auto
  qed
  from uniq one tick stop nav show ?thesis by blast
qed

lemma at_most_one_live_request_example:
  "reachable started \<and> live started 0
   \<and> nextCtrl (step (env_at 1300) TimeUpdate started) \<noteq> nextCtrl started
   \<and> pending started 0 \<noteq> None
   \<and> 0 \<in> aborted (step (env_at 1300) TimeUpdate started)
   \<and> inflight (step (env_at 1300) TimeUpdate started) = Some (1, Chunks)
   \<and> live (step (env_at 1300) TimeUpdate started) 1
   \<and> 0 \<in> aborted (step (env_at 1300) (Message STOP_TRANSLATION) started)
   \<and> inflight (step (env_at 1300) (Message STOP_TRANSLATION) started) = None"
proof -
  have f: "pending started 0 \<noteq> None" "nextCtrl started = 1" "live started 0"
    by (simp_all add: started_eq boot_def live_def)
  have g: "nextCtrl (step (env_at 1300) TimeUpdate started) = 2"
    using retick_eq by (simp add: retick_def f)
  from at_most_one_live_request [OF reachable_started, of "env_at 1300"] f g reachable_started
  show ?thesis by simp
qed

lemma ctx_started: "run (take 1 ctx_run) (boot (env_at 1000)) = started"
  by (simp add: ctx_run_def started_def)

lemma ctx_video_changed: "run (take 2 ctx_run) (boot (env_at 1000)) =
    started\<lparr>videoId := Some ''a'', lastTickAt := 1300\<rparr>"
proof -
  have "run (take 2 ctx_run) (boot (env_at 1000)) =
      step (ad_page ''a'' 1300) (Message (START_TRANSLATION None)) started"
    by (simp add: ctx_run_def started_def)
  then show ?thesis
    unfolding started_eq by (simp add: eval_defs)
qed

lemma ctx_watched: "run (take 3 ctx_run) (boot (env_at 1000)) =
    started\<lparr>videoId := Some ''a'', lastTickAt := 1300,
      lastUrl := ''https://www.youtube.com/watch?v=a''\<rparr>"
proof -
  have "run (take 3 ctx_run) (boot (env_at 1000)) =
      step (page ''a'' 1400) UrlMaybeChanged (run (take 2 ctx_run) (boot (env_at 1000)))"
    by (simp add: ctx_run_def)
  then show ?thesis
    unfolding ctx_video_changed started_eq by (simp add: eval_defs)
qed

lemma ctx_fetched: "run (take 4 ctx_run) (boot (env_at 1000)) =
    started\<lparr>videoId := Some ''a'', lastTickAt := 1300,
      lastUrl := ''https://www.youtube.com/watch?v=a'',
      inflight := Some (0, Translate),
      pending := [0 \<mapsto> \<lparr>r_ckey = ''v|en|3'', r_t = 3, r_stage = Translate\<rparr>]\<rparr>"
proof -
  have "run (take 4 ctx_run) (boot (env_at 1000)) =
      step (page ''a'' 1500) (ChunksSettled 0 (Resolved [lineOld]))
        (run (take 3 ctx_run) (boot (env_at 1000)))"
    by (simp add: ctx_run_def)
  then show ?thesis
    unfolding ctx_watched started_eq by (simp add: eval_defs)
qed

lemma ctx_applied: "run ctx_run (boot (env_at 1000)) =
    started\<lparr>videoId := Some ''a'', lastTickAt := 1300,
      lastUrl := ''https://www.youtube.com/watch?v=a'',
      inflight := None, pending := Map.empty,
      cache := [(''v|en|3'', (1600, [lineOld]))], overlayEl := Some (1, ''OLD'')\<rparr>"
proof -
  have "run ctx_run (boot (env_at 1000)) =
      step (page ''a'' 1600) (TranslateSettled 0 (Resolved [lineOld]))
        (run (take 4 ctx_run) (boot (env_at 1000)))"
    by (simp add: ctx_run_def)
  then show ?thesis
    unfolding ctx_fetched started_eq by (simp add: eval_defs)
qed

text \<open>
  C2 says that a context change cancels any in-flight request. \<^verbatim>\<open>resetForNavigation\<close> does
  so through \<^verbatim>\<open>stopAll\<close>, but \<^verbatim>\<open>START_TRANSLATION\<close> assigns \<^verbatim>\<open>state.videoId\<close> with no
  \<^verbatim>\<open>stopAll\<close>, and the tick it forces returns before the abort when an ad is showing. In
  \<open>ctx_run\<close> the video changes from \<^verbatim>\<open>v\<close> to \<^verbatim>\<open>a\<close> while request 0 for \<^verbatim>\<open>v\<close> is in flight:
  the request stays recorded and live, the URL watcher then finds the id already changed and
  does nothing, and when the request completes its window is written to the cache and its
  line is rendered on the video \<^verbatim>\<open>a\<close>; no controller was ever aborted.
\<close>

theorem start_changes_video_without_cancelling:
  "videoId (run (take 1 ctx_run) (boot (env_at 1000))) = Some ''v''
   \<and> inflight (run (take 1 ctx_run) (boot (env_at 1000))) = Some (0, Chunks)
   \<and> videoId (run (take 2 ctx_run) (boot (env_at 1000))) = Some ''a''
   \<and> inflight (run (take 2 ctx_run) (boot (env_at 1000))) = Some (0, Chunks)
   \<and> live (run (take 2 ctx_run) (boot (env_at 1000))) 0
   \<and> live (run (take 3 ctx_run) (boot (env_at 1000))) 0
   \<and> videoId (run ctx_run (boot (env_at 1000))) = Some ''a''
   \<and> aborted (run ctx_run (boot (env_at 1000))) = {}
   \<and> cache (run ctx_run (boot (env_at 1000))) = [(''v|en|3'', (1600, [lineOld]))]
   \<and> overlayEl (run ctx_run (boot (env_at 1000))) = Some (1, ''OLD'')"
  unfolding ctx_started ctx_video_changed ctx_watched ctx_applied started_eq
  by (simp add: boot_def env_at_def live_def)

subsection \<open>Navigation and the cache\<close>

lemma map_of_filter_keys:
  "map_of (filter (\<lambda>kv. Q (fst kv)) c) k = (if Q k then map_of c k else None)"
  by (induction c) auto

lemma prefix_sep_eq:
  assumes "c \<notin> set m" "c \<notin> set m'" "prefix (m @ [c]) (m' @ c # rest)"
  shows "m = m'"
  using assms
proof (induction m arbitrary: m')
  case Nil
  then show ?case by (cases m') auto
next
  case (Cons y ys)
  then show ?case by (cases m') auto
qed

lemma cacheKey_prefix: "prefix (m @ ''|'') (cacheKey m lang t)"
  by (simp add: cacheKey_def)

lemma cacheKey_other:
  assumes "CHR ''|'' \<notin> set m" "CHR ''|'' \<notin> set m'" "m' \<noteq> m"
  shows "\<not> prefix (m @ ''|'') (cacheKey m' lang t)"
proof
  assume "prefix (m @ ''|'') (cacheKey m' lang t)"
  then have "prefix (m @ [CHR ''|'']) (m' @ CHR ''|'' # (lang @ ''|'' @ show_int \<lfloor>t\<rfloor>))"
    by (simp add: cacheKey_def)
  from prefix_sep_eq [OF assms(1,2) this] assms(3) show False by simp
qed

lemma map_of_purge:
  "map_of (purge m c) k = (if prefix (m @ ''|'') k then None else map_of c k)"
  using map_of_filter_keys [of "\<lambda>k. \<not> prefix (m @ ''|'') k" c k]
  by (simp add: purge_def)

lemma cache_resetForNavigation:
  "cache (resetForNavigation e w) =
     (if truthy (videoId w) then purge (the (videoId w)) (cache w) else cache w)"
  by (simp add: resetForNavigation_def Let_def stopAll_def removeOverlayAndListeners_def
      abortInflight_def setState_def split: option.splits)

lemma miss_onTimeTick:
  "map_of (cache w) k = None \<Longrightarrow> map_of (cache (onTimeTick e w)) k = None"
  unfolding onTimeTick_def Let_def renderFromWindow_def abortInflight_def cacheGet_def
  by (auto simp: AList.delete_conv' split: option.splits)

lemma miss_wait:
  "map_of (cache w) k = None \<Longrightarrow> map_of (cache (wait e a w)) k = None"
  using miss_onTimeTick [of "(snd (injectIfReady e w))\<lparr>lastTickAt := 0\<rparr>" k e]
  by (auto simp: wait_def Let_def setState_def injectIfReady_def split: option.splits)

lemma miss_tryStartActive:
  "map_of (cache w) k = None \<Longrightarrow> map_of (cache (tryStartActive e w)) k = None"
  using miss_wait [of "setState ACTIVE w" k e 0]
  by (auto simp: tryStartActive_def setState_def split: if_splits)

lemma miss_after_navigation:
  assumes "videoId w = Some m" "m \<noteq> []" "href e \<noteq> lastUrl w" "urlVideoId e \<noteq> Some m"
  shows "map_of (cache (onUrlMaybeChanged e w)) (cacheKey m lang t) = None"
proof -
  define w1 where "w1 = w\<lparr>lastUrl := href e\<rparr>"
  have v: "videoId w1 = Some m" using assms(1) by (simp add: w1_def)
  have "cache (resetForNavigation e w1) = purge m (cache w1)"
    using v assms(2) by (simp add: cache_resetForNavigation truthy_def)
  then have n: "map_of (cache (resetForNavigation e w1)) (cacheKey m lang t) = None"
    by (simp add: map_of_purge cacheKey_prefix)
  have "onUrlMaybeChanged e w = resetForNavigation e w1
      \<or> onUrlMaybeChanged e w = tryStartActive e (resetForNavigation e w1)"
    using assms(3,4) v by (simp add: onUrlMaybeChanged_def Let_def w1_def [symmetric])
  with n miss_tryStartActive [OF n, of e] show ?thesis by auto
qed

text \<open>
  What \<^verbatim>\<open>resetForNavigation\<close> does guarantee: run with \<^verbatim>\<open>state.videoId = m\<close>, \<open>m\<close> not empty
  (alone or inside the handler of a URL change to another video, restart included), it
  leaves no key of \<open>m\<close> in the cache, so that a lookup of any key of \<open>m\<close> misses whatever
  the time; and it leaves the entries of another media id \<open>m'\<close> as they were when neither
  \<open>m\<close> nor \<open>m'\<close> contains the separator \<^verbatim>\<open>|\<close>.
\<close>

lemma navigation_purges_previous_video:
  assumes "videoId w = Some m" "m \<noteq> []"
  shows "fst (cacheGet (cacheKey m lang t) now (cache (resetForNavigation e w))) = None
       \<and> (href e \<noteq> lastUrl w \<and> urlVideoId e \<noteq> Some m \<longrightarrow>
            fst (cacheGet (cacheKey m lang t) now (cache (step e UrlMaybeChanged w))) = None)
       \<and> (CHR ''|'' \<notin> set m \<and> CHR ''|'' \<notin> set m' \<and> m' \<noteq> m \<longrightarrow>
            map_of (cache (resetForNavigation e w)) (cacheKey m' lang' t')
              = map_of (cache w) (cacheKey m' lang' t'))"
proof -
  have c: "cache (resetForNavigation e w) = purge m (cache w)"
    using assms by (simp add: cache_resetForNavigation truthy_def)
  have "map_of (purge m (cache w)) (cacheKey m lang t) = None"
    by (simp add: map_of_purge cacheKey_prefix)
  then have a: "fst (cacheGet (cacheKey m lang t) now (purge m (cache w))) = None"
    by (simp add: cacheGet_def)
  have b: "map_of (purge m (cache w)) (cacheKey m' lang' t') = map_of (cache w) (cacheKey m' lang' t')"
    if "CHR ''|'' \<notin> set m \<and> CHR ''|'' \<notin> set m' \<and> m' \<noteq> m"
    using that cacheKey_other [of m m' lang' t']
    by (simp add: map_of_purge)
  have d: "fst (cacheGet (cacheKey m lang t) now (cache (step e UrlMaybeChanged w))) = None"
    if "href e \<noteq> lastUrl w \<and> urlVideoId e \<noteq> Some m"
    using that miss_after_navigation [OF assms, of e lang t]
    by (simp add: step_def cacheGet_def)
  from a b c d show ?thesis by simp
qed

lemma bleed_hydrated: "run (take 3 bleed) (boot (page ''a|b'' 1000)) = 
   (boot (page ''a|b'' 1000))\<lparr>mode := ACTIVE, enabled := True, videoEl := Some 2,
     lastTickAt := 1000, overlayEl := Some (1, []), inflight := None,
     pending := Map.empty, nextCtrl := 1, cache := [(''a|b|en|3'', (1200, [lineA]))]\<rparr>"
  by (simp add: bleed_def step_def onMessage_def boot_def page_def handler_defs Let_def
      truthy_def or_else_def ensureOverlay_def isAdPlaying_def cacheGet_def cacheKey_def
      show_int_def show_nat.simps digit_char_def TICK_HZ_def cacheSet_def CACHE_MAX_def
      windowText_def pickLine_def spans_def ahead_def lineA_def CHUNK_AHEAD_SEC_def)

lemma bleed_restarted: "run (take 4 bleed) (boot (page ''a|b'' 1000)) =
   (boot (page ''a|b'' 1000))\<lparr>mode := ACTIVE, enabled := True, videoEl := Some 2,
     videoId := Some ''a'',
     lastTickAt := 1300, overlayEl := Some (1, []), inflight := Some (1, Chunks),
     pending := [1 \<mapsto> \<lparr>r_ckey = ''a|en|3'', r_t = 3, r_stage = Chunks\<rparr>], nextCtrl := 2,
     cache := [(''a|b|en|3'', (1200, [lineA]))]\<rparr>"
proof -
  have "run (take 4 bleed) (boot (page ''a|b'' 1000)) =
      step (page ''a'' 1300) (Message (START_TRANSLATION None))
        (run (take 3 bleed) (boot (page ''a|b'' 1000)))"
    by (simp add: bleed_def)
  then show ?thesis
    unfolding bleed_hydrated
    by (simp add: step_def onMessage_def boot_def page_def handler_defs Let_def
      truthy_def or_else_def ensureOverlay_def isAdPlaying_def cacheGet_def cacheKey_def
      show_int_def show_nat.simps digit_char_def TICK_HZ_def)
qed

lemma bleed_navigated: "run bleed (boot (page ''a|b'' 1000)) =
   (boot (page ''a|b'' 1000))\<lparr>mode := ACTIVE, enabled := True, videoEl := Some 2,
     videoId := Some ''c'', lastUrl := ''https://www.youtube.com/watch?v=c'',
     lastTickAt := 2000, overlayEl := Some (1, []), inflight := Some (2, Chunks),
     aborted := {1},
     pending := [1 \<mapsto> \<lparr>r_ckey = ''a|en|3'', r_t = 3, r_stage = Chunks\<rparr>,
                 2 \<mapsto> \<lparr>r_ckey = ''c|en|3'', r_t = 3, r_stage = Chunks\<rparr>], nextCtrl := 3,
     cache := []\<rparr>"
proof -
  have "run bleed (boot (page ''a|b'' 1000)) =
      step (page ''c'' 2000) UrlMaybeChanged (run (take 4 bleed) (boot (page ''a|b'' 1000)))"
    by (simp add: bleed_def)
  then show ?thesis
    unfolding bleed_restarted
    by (simp add: step_def onMessage_def boot_def page_def handler_defs Let_def
      truthy_def or_else_def ensureOverlay_def isAdPlaying_def cacheGet_def cacheKey_def
      show_int_def show_nat.simps digit_char_def TICK_HZ_def purge_def)
qed

lemma keep_hydrated: "run (take 3 keep_run) (boot (env_at 1000)) =
    started\<lparr>inflight := None, pending := Map.empty,
      cache := [(''v|en|3'', (1200, [lineOld]))], overlayEl := Some (1, ''OLD'')\<rparr>"
proof -
  have "run (take 3 keep_run) (boot (env_at 1000)) =
      step (env_at 1200) (TranslateSettled 0 (Resolved [lineOld]))
        (step (env_at 1100) (ChunksSettled 0 (Resolved [lineOld])) started)"
    by (simp add: keep_run_def started_def)
  then show ?thesis
    unfolding started_eq by (simp add: eval_defs)
qed

lemma keep_video_changed: "run (take 4 keep_run) (boot (env_at 1000)) =
    started\<lparr>videoId := Some ''a'', lastTickAt := 1300,
      inflight := Some (1, Chunks),
      pending := [1 \<mapsto> \<lparr>r_ckey = ''a|en|3'', r_t = 3, r_stage = Chunks\<rparr>], nextCtrl := 2,
      cache := [(''v|en|3'', (1200, [lineOld]))], overlayEl := Some (1, ''OLD'')\<rparr>"
proof -
  have "run (take 4 keep_run) (boot (env_at 1000)) =
      step (page ''a'' 1300) (Message (START_TRANSLATION None))
        (run (take 3 keep_run) (boot (env_at 1000)))"
    by (simp add: keep_run_def)
  then show ?thesis
    unfolding keep_hydrated started_eq by (simp add: eval_defs)
qed

lemma keep_watched: "run keep_run (boot (env_at 1000)) =
    started\<lparr>videoId := Some ''a'', lastTickAt := 1300,
      lastUrl := ''https://www.youtube.com/watch?v=a'',
      inflight := Some (1, Chunks),
      pending := [1 \<mapsto> \<lparr>r_ckey = ''a|en|3'', r_t = 3, r_stage = Chunks\<rparr>], nextCtrl := 2,
      cache := [(''v|en|3'', (1200, [lineOld]))], overlayEl := Some (1, ''OLD'')\<rparr>"
proof -
  have "run keep_run (boot (env_at 1000)) =
      step (page ''a'' 2000) UrlMaybeChanged (run (take 4 keep_run) (boot (env_at 1000)))"
    by (simp add: keep_run_def)
  then show ?thesis
    unfolding keep_video_changed started_eq by (simp add: eval_defs)
qed

text \<open>
  C9 says that after a context change from the media id \<open>m\<close> no entry keyed under \<open>m\<close> can
  be retrieved, and that the entries of other media ids are untouched. The code breaks both
  halves. In \<open>keep_run\<close> the video changes from \<^verbatim>\<open>v\<close> to \<^verbatim>\<open>a\<close> under a start message, which
  assigns \<^verbatim>\<open>state.videoId\<close> and purges nothing; the URL watcher then finds the id already
  changed, and a lookup of the key of \<^verbatim>\<open>v\<close> still hits. In \<open>bleed\<close> the cache holds the window
  of the video \<^verbatim>\<open>a|b\<close> while the current video is \<^verbatim>\<open>a\<close>, and the navigation from \<^verbatim>\<open>a\<close> to
  \<^verbatim>\<open>c\<close> deletes it, because the purge deletes every key that starts with \<^verbatim>\<open>a|\<close>, against
  the comment "Clear only entries for prior video" of \<^verbatim>\<open>resetForNavigation\<close>.
\<close>

theorem context_change_breaks_cache_scoping:
  "videoId (run (take 3 keep_run) (boot (env_at 1000))) = Some ''v''
   \<and> videoId (run keep_run (boot (env_at 1000))) = Some ''a''
   \<and> lastUrl (run keep_run (boot (env_at 1000))) = href (page ''a'' 2000)
   \<and> fst (cacheGet (cacheKey ''v'' ''en'' 3) 2000 (cache (run keep_run (boot (env_at 1000)))))
       = Some [lineOld]
   \<and> videoId (run (take 4 bleed) (boot (page ''a|b'' 1000))) = Some ''a''
   \<and> map_of (cache (run (take 4 bleed) (boot (page ''a|b'' 1000)))) (cacheKey ''a|b'' ''en'' 3)
       = Some (1200, [lineA])
   \<and> videoId (run bleed (boot (page ''a|b'' 1000))) = Some ''c''
   \<and> map_of (cache (run bleed (boot (page ''a|b'' 1000)))) (cacheKey ''a|b'' ''en'' 3) = None"
  unfolding keep_hydrated keep_watched bleed_restarted bleed_navigated started_eq
  by (simp add: boot_def env_at_def page_def cacheGet_def CACHE_TTL_MS_def cacheKey_def
      show_int_def show_nat.simps digit_char_def)

lemma navigation_purges_previous_video_example:
  "videoId two_videos = Some ''a'' \<and> ''a'' \<noteq> []
   \<and> map_of (cache two_videos) (cacheKey ''a'' ''en'' 3) = Some (1250, [lineB])
   \<and> fst (cacheGet (cacheKey ''a'' ''en'' 3) 2000
        (cache (resetForNavigation (page ''c'' 2000) two_videos))) = None
   \<and> href (page ''c'' 2000) \<noteq> lastUrl two_videos \<and> urlVideoId (page ''c'' 2000) \<noteq> Some ''a''
   \<and> fst (cacheGet (cacheKey ''a'' ''en'' 3) 2000
        (cache (step (page ''c'' 2000) UrlMaybeChanged two_videos))) = None
   \<and> CHR ''|'' \<notin> set ''a'' \<and> CHR ''|'' \<notin> set ''xyz'' \<and> ''xyz'' \<noteq> ''a''
   \<and> map_of (cache (resetForNavigation (page ''c'' 2000) two_videos)) (cacheKey ''xyz'' ''en'' 3)
       = Some (1200, [lineA])"
proof -
  have v: "videoId two_videos = Some ''a''"
    by (simp add: two_videos_def)
  have n: "''a'' \<noteq> []" by simp
  have h: "href (page ''c'' 2000) \<noteq> lastUrl two_videos"
    "urlVideoId (page ''c'' 2000) \<noteq> Some ''a''"
    by (simp_all add: two_videos_def started_eq boot_def env_at_def page_def)
  have k: "map_of (cache two_videos) (cacheKey ''xyz'' ''en'' 3) = Some (1200, [lineA])"
    "map_of (cache two_videos) (cacheKey ''a'' ''en'' 3) = Some (1250, [lineB])"
    by (simp_all add: two_videos_def cacheKey_def show_int_def show_nat.simps digit_char_def)
  from navigation_purges_previous_video [OF v n, of "''en''" 3 2000 "page ''c'' 2000" "''xyz''"
      "''en''" 3]
  show ?thesis using v k h by simp
qed

subsection \<open>The bound of the cache\<close>

lemma cacheSet_evicted:
  "cacheSet key data now c =
     (case evicted key data now c of
        None \<Rightarrow> AList.update key (now, data) c
      | Some e \<Rightarrow> AList.delete e (AList.update key (now, data) c))"
  by (simp add: cacheSet_def evicted_def Let_def)

lemma fst_track: "fst (track ops n cb) = cache_run ops (fst cb)"
  by (induction ops arbitrary: n cb) (simp_all add: cache_run_def)

lemma update_fresh: "k \<notin> fst ` set al \<Longrightarrow> AList.update k v al = al @ [(k, v)]"
  by (induction al) auto

lemma update_present: "k \<in> fst ` set al \<Longrightarrow> map fst (AList.update k v al) = map fst al"
  by (induction al) auto

lemma length_update_alist:
  "length (AList.update k v al) = (if k \<in> fst ` set al then length al else Suc (length al))"
  by (induction al) auto

lemma delete_filter_keys: "map fst (AList.delete k al) = filter (\<lambda>x. x \<noteq> k) (map fst al)"
  by (induction al) auto

lemma ordered_step_keys:
  assumes o: "ordered n c b"
    and ks: "set ks \<inter> fst ` set c = {}" "length ks \<le> 1"
    and k': "map fst c' = filter P (map fst c @ ks)"
    and len: "length c' \<le> CACHE_MAX"
  shows "ordered (Suc n) c' (entered n c c' b)"
proof -
  let ?b = "entered n c c' b"
  let ?x = "\<lambda>k. if k \<in> fst ` set c then b k else Some n"
  have sub: "fst ` set c' \<subseteq> fst ` set c \<union> set ks"
  proof -
    have "set (map fst c') \<subseteq> set (map fst c @ ks)" unfolding k' by (rule filter_is_subset)
    then show ?thesis by simp
  qed
  have agree: "?b k = ?x k" if "k \<in> fst ` set c'" for k
    using that by (simp add: entered_def)
  have lt: "the (b x) < n" if "x \<in> fst ` set c" for x
  proof -
    from that o have "x \<in> dom b" by (simp add: ordered_def)
    then obtain i where i: "b x = Some i" by blast
    with o have "i < n" by (simp add: ordered_def)
    with i show ?thesis by simp
  qed
  have "sorted_wrt (\<lambda>x y. the (b x) < the (b y)) (map fst c)"
    using o by (simp add: ordered_def)
  then have s1: "sorted_wrt (\<lambda>x y. the (?x x) < the (?x y)) (map fst c)"
    by (rule sorted_wrt_mono_rel [rotated]) auto
  have s2: "sorted_wrt (\<lambda>x y. the (?x x) < the (?x y)) ks"
    using ks(2) by (cases ks) auto
  have s3: "\<forall>x\<in>set (map fst c). \<forall>y\<in>set ks. the (?x x) < the (?x y)"
    using ks(1) lt by auto
  have "sorted_wrt (\<lambda>x y. the (?x x) < the (?x y)) (map fst c @ ks)"
    using s1 s2 s3 by (simp add: sorted_wrt_append)
  then have "sorted_wrt (\<lambda>x y. the (?x x) < the (?x y)) (map fst c')"
    unfolding k' by (rule sorted_wrt_filter)
  then have so: "sorted_wrt (\<lambda>x y. the (?b x) < the (?b y)) (map fst c')"
    by (rule sorted_wrt_mono_rel [rotated]) (simp add: agree)
  have "distinct (map fst c @ ks)"
    using o ks by (cases ks) (auto simp: ordered_def)
  then have d: "distinct (map fst c')" unfolding k' by (rule distinct_filter)
  have dm: "dom ?b = fst ` set c'"
    using o by (auto simp: entered_def ordered_def dom_def split: if_splits)
  have bd: "\<forall>k i. ?b k = Some i \<longrightarrow> i < Suc n"
    using o by (auto simp: entered_def ordered_def less_Suc_eq split: if_splits)
  from d len dm bd so show ?thesis by (simp add: ordered_def)
qed

lemma ordered_cacheGet:
  assumes "ordered n c b"
  shows "ordered (Suc n) (snd (cacheGet key now c)) (entered n c (snd (cacheGet key now c)) b)"
proof (cases "snd (cacheGet key now c) = c")
  case True
  have "length c \<le> CACHE_MAX" using assms by (simp add: ordered_def)
  with ordered_step_keys [OF assms, of "[]" c "\<lambda>_. True"] True show ?thesis by simp
next
  case False
  then have e: "snd (cacheGet key now c) = AList.delete key c"
    by (auto simp: cacheGet_def split: option.splits if_splits)
  have "length (AList.delete key c) \<le> CACHE_MAX"
    using assms length_delete_le [of key c] by (simp add: ordered_def)
  with ordered_step_keys [OF assms, of "[]" "AList.delete key c" "\<lambda>x. x \<noteq> key"] e
  show ?thesis by (simp add: delete_filter_keys)
qed

lemma ordered_purge:
  assumes "ordered n c b"
  shows "ordered (Suc n) (purge vid c) (entered n c (purge vid c) b)"
proof -
  have k: "map fst (purge vid c) = filter (\<lambda>k. \<not> prefix (vid @ ''|'') k) (map fst c)"
    by (induction c) (auto simp: purge_def)
  have "length (purge vid c) \<le> length c"
    unfolding purge_def by (rule length_filter_le)
  moreover have "length c \<le> CACHE_MAX" using assms by (simp add: ordered_def)
  ultimately have "length (purge vid c) \<le> CACHE_MAX" by (rule le_trans)
  with ordered_step_keys [OF assms, of "[]" "purge vid c"] k show ?thesis by simp
qed

lemma ordered_cacheSet:
  assumes "ordered n c b"
  shows "ordered (Suc n) (cacheSet key data now c) (entered n c (cacheSet key data now c) b)"
proof (cases "key \<in> fst ` set c")
  case True
  have l: "length (AList.update key (now, data) c) = length c"
    using True by (simp add: length_update_alist)
  have le: "length c \<le> CACHE_MAX" using assms by (simp add: ordered_def)
  then have e: "cacheSet key data now c = AList.update key (now, data) c"
    by (simp add: cacheSet_def Let_def l)
  from ordered_step_keys [OF assms, of "[]" "AList.update key (now, data) c" "\<lambda>_. True"]
  show ?thesis using e l le True by (simp add: update_present)
next
  case False
  then have u: "AList.update key (now, data) c = c @ [(key, (now, data))]"
    by (rule update_fresh)
  have le: "length c \<le> CACHE_MAX" using assms by (simp add: ordered_def)
  show ?thesis
  proof (cases "length c < CACHE_MAX")
    case True
    then have e: "cacheSet key data now c = c @ [(key, (now, data))]"
      by (simp add: cacheSet_def Let_def u)
    from ordered_step_keys [OF assms, of "[key]" "c @ [(key, (now, data))]" "\<lambda>_. True"]
    show ?thesis using e False True by simp
  next
    case False
    with le have full: "length c = CACHE_MAX" by simp
    define ev where "ev = fst (hd (c @ [(key, (now, data))]))"
    have e: "cacheSet key data now c = AList.delete ev (c @ [(key, (now, data))])"
      by (simp add: cacheSet_def Let_def u full ev_def)
    have "ev \<in> set (map fst (c @ [(key, (now, data))]))"
      unfolding ev_def by (cases c) auto
    then have "length (filter (\<lambda>x. x \<noteq> ev) (map fst (c @ [(key, (now, data))])))
        < length (map fst (c @ [(key, (now, data))]))"
      by (intro length_filter_less [of ev]) auto
    moreover have "length (AList.delete ev (c @ [(key, (now, data))]))
        = length (filter (\<lambda>x. x \<noteq> ev) (map fst (c @ [(key, (now, data))])))"
      by (metis delete_filter_keys length_map)
    moreover have "length (map fst (c @ [(key, (now, data))])) = Suc CACHE_MAX"
      using full by simp
    ultimately have "length (AList.delete ev (c @ [(key, (now, data))])) \<le> CACHE_MAX"
      by linarith
    with ordered_step_keys [OF assms, of "[key]" "AList.delete ev (c @ [(key, (now, data))])"
        "\<lambda>x. x \<noteq> ev"] \<open>key \<notin> fst ` set c\<close>
    show ?thesis using e by (simp add: delete_filter_keys)
  qed
qed

lemma ordered_cache_do:
  "ordered n c b \<Longrightarrow> ordered (Suc n) (cache_do x c) (entered n c (cache_do x c) b)"
  by (cases x) (simp_all add: ordered_cacheGet ordered_cacheSet ordered_purge)

lemma ordered_track:
  "ordered n (fst cb) (snd cb) \<Longrightarrow>
     ordered (n + length ops) (fst (track ops n cb)) (snd (track ops n cb))"
proof (induction ops arbitrary: n cb)
  case Nil
  then show ?case by simp
next
  case (Cons x xs)
  from ordered_cache_do [OF Cons.prems, of x]
  have "ordered (Suc n) (fst (cache_do x (fst cb), entered n (fst cb) (cache_do x (fst cb)) (snd cb)))
     (snd (cache_do x (fst cb), entered n (fst cb) (cache_do x (fst cb)) (snd cb)))"
    by simp
  from Cons.IH [OF this] show ?case by simp
qed

lemma ordered_empty: "ordered 0 [] Map.empty"
  by (simp add: ordered_def)

lemma evicted_is_first:
  assumes "ordered n c b" "evicted key data now c = Some e"
  shows "key \<notin> fst ` set c \<and> (\<exists>i. b e = Some i \<and> (\<forall>k j. k \<noteq> e \<and> b k = Some j \<longrightarrow> i < j))"
proof -
  have le: "length c \<le> CACHE_MAX" using assms(1) by (simp add: ordered_def)
  have big: "length (AList.update key (now, data) c) > CACHE_MAX"
    and e: "e = fst (hd (AList.update key (now, data) c))"
    using assms(2) by (auto simp: evicted_def Let_def split: if_splits)
  have fresh: "key \<notin> fst ` set c"
    using big le by (auto simp: length_update_alist split: if_splits)
  then have u: "AList.update key (now, data) c = c @ [(key, (now, data))]"
    by (rule update_fresh)
  have "c \<noteq> []" using big u by (auto simp: CACHE_MAX_def)
  then obtain p ps where c: "c = p # ps" by (cases c) auto
  have ep: "e = fst p" using e u c by simp
  then have "e \<in> dom b" using assms(1) c by (auto simp: ordered_def)
  then obtain i where i: "b e = Some i" by blast
  have first: "\<forall>y \<in> set (map fst ps). the (b e) < the (b y)"
    using assms(1) c ep by (simp add: ordered_def)
  have "i < j" if "k \<noteq> e \<and> b k = Some j" for k j
  proof -
    from that have "k \<in> dom b" by blast
    then have "k \<in> fst ` set c" using assms(1) by (simp add: ordered_def)
    with that ep c have "k \<in> set (map fst ps)" by auto
    with first i that show ?thesis by auto
  qed
  with i fresh show ?thesis by blast
qed

lemma ordered_after:
  "ordered (length ops) (cache_run ops []) (snd (track ops 0 ([], Map.empty)))"
proof -
  have f: "fst (track ops 0 ([], Map.empty)) = cache_run ops []"
    by (simp add: fst_track)
  have "ordered (0 + length ops) (fst (track ops 0 ([], Map.empty)))
      (snd (track ops 0 ([], Map.empty)))"
    by (rule ordered_track) (simp add: ordered_empty)
  then show ?thesis by (simp add: f)
qed

lemma cacheSet_cases:
  assumes "ordered n c b"
  shows "(key \<in> fst ` set c \<longrightarrow>
            evicted key data now c = None
          \<and> cacheSet key data now c = AList.update key (now, data) c
          \<and> map fst (cacheSet key data now c) = map fst c)
       \<and> (key \<notin> fst ` set c \<and> length c < CACHE_MAX \<longrightarrow>
            evicted key data now c = None
          \<and> cacheSet key data now c = c @ [(key, (now, data))])
       \<and> (key \<notin> fst ` set c \<and> length c = CACHE_MAX \<longrightarrow>
            evicted key data now c = Some (fst (hd c))
          \<and> cacheSet key data now c = tl c @ [(key, (now, data))])"
proof -
  have le: "length c \<le> CACHE_MAX" and d: "distinct (map fst c)"
    using assms by (simp_all add: ordered_def)
  have a: "evicted key data now c = None
          \<and> cacheSet key data now c = AList.update key (now, data) c
          \<and> map fst (cacheSet key data now c) = map fst c" if "key \<in> fst ` set c"
    using that le
    by (simp add: evicted_def cacheSet_def Let_def length_update_alist update_present)
  have b: "evicted key data now c = None
          \<and> cacheSet key data now c = c @ [(key, (now, data))]"
    if "key \<notin> fst ` set c \<and> length c < CACHE_MAX"
    using that by (simp add: evicted_def cacheSet_def Let_def update_fresh)
  have c: "evicted key data now c = Some (fst (hd c))
          \<and> cacheSet key data now c = tl c @ [(key, (now, data))]"
    if t: "key \<notin> fst ` set c \<and> length c = CACHE_MAX"
  proof -
    from t have "c \<noteq> []" by (auto simp: CACHE_MAX_def)
    then obtain p ps where c: "c = p # ps" by (cases c) auto
    have "fst p \<notin> fst ` set ps" using d c by auto
    then have dl: "filter (\<lambda>kv. fst p \<noteq> fst kv) ps = ps"
      by (auto simp: filter_id_conv)
    have ne: "fst p \<noteq> key" using t c by auto
    have "AList.delete (fst p) (c @ [(key, (now, data))]) = ps @ [(key, (now, data))]"
      using c ne dl by (simp add: AList.delete_eq case_prod_unfold)
    then show ?thesis
      using t c ne by (auto simp: evicted_def cacheSet_def Let_def update_fresh)
  qed
  from a b c show ?thesis by blast
qed


text \<open>
  C7, amended: after every sequence of lookups, puts and purges from the empty cache the cache
  holds at most 500 entries, and so it does after one more \<^verbatim>\<open>cacheSet\<close>, which always leaves
  the entry it was given in the cache. A \<^verbatim>\<open>cacheSet\<close> of a present key trims nothing and leaves
  the order of the keys and every other entry as they were: the key keeps its place although
  its entry carries the new timestamp. A \<^verbatim>\<open>cacheSet\<close> of a new key appends when there is room.
  A \<^verbatim>\<open>cacheSet\<close> of a new key into a full cache removes one entry, the first of the
  \<^verbatim>\<open>Map\<close>, and leaves every other entry as it was; the key removed is the one that has been
  present longest (it entered before every other key present), whatever the timestamps.
\<close>

theorem cache_bounded_trims_longest_present:
  "(let c = cache_run ops [];
        b = snd (track ops 0 ([], Map.empty));
        c' = cacheSet key data now c
    in length c \<le> CACHE_MAX \<and> length c' \<le> CACHE_MAX
     \<and> fst (track ops 0 ([], Map.empty)) = c \<and> dom b = fst ` set c
     \<and> map_of c' key = Some (now, data)
     \<and> c' = (case evicted key data now c of
                None \<Rightarrow> AList.update key (now, data) c
              | Some e \<Rightarrow> AList.delete e (AList.update key (now, data) c))
     \<and> (key \<in> fst ` set c \<longrightarrow>
           evicted key data now c = None \<and> map fst c' = map fst c
           \<and> (\<forall>k. k \<noteq> key \<longrightarrow> map_of c' k = map_of c k))
     \<and> (key \<notin> fst ` set c \<and> length c < CACHE_MAX \<longrightarrow>
           evicted key data now c = None \<and> c' = c @ [(key, (now, data))])
     \<and> (key \<notin> fst ` set c \<and> length c = CACHE_MAX \<longrightarrow>
           (\<exists>e i. evicted key data now c = Some e \<and> c' = tl c @ [(key, (now, data))]
              \<and> map_of c e \<noteq> None \<and> map_of c' e = None
              \<and> (\<forall>k. k \<noteq> e \<and> k \<noteq> key \<longrightarrow> map_of c' k = map_of c k)
              \<and> b e = Some i \<and> (\<forall>k j. k \<noteq> e \<and> b k = Some j \<longrightarrow> i < j))))"
proof -
  define c where "c = cache_run ops []"
  define b where "b = snd (track ops 0 ([], Map.empty))"
  define c' where "c' = cacheSet key data now c"
  have o: "ordered (length ops) c b"
    unfolding c_def b_def by (rule ordered_after)
  have f: "fst (track ops 0 ([], Map.empty)) = c"
    by (simp add: fst_track c_def)
  have le: "length c \<le> CACHE_MAX" and dm: "dom b = fst ` set c"
    using o by (simp_all add: ordered_def)
  have le': "length c' \<le> CACHE_MAX"
    using ordered_cacheSet [OF o, of key data now] by (simp add: ordered_def c'_def)
  have link: "c' = (case evicted key data now c of
                None \<Rightarrow> AList.update key (now, data) c
              | Some e \<Rightarrow> AList.delete e (AList.update key (now, data) c))"
    unfolding c'_def by (rule cacheSet_evicted)
  note cs = cacheSet_cases [OF o, of key data now, folded c'_def]
  have p1: "key \<in> fst ` set c \<longrightarrow>
           evicted key data now c = None \<and> map fst c' = map fst c
           \<and> (\<forall>k. k \<noteq> key \<longrightarrow> map_of c' k = map_of c k)"
  proof
    assume k: "key \<in> fst ` set c"
    with cs have e: "evicted key data now c = None" "c' = AList.update key (now, data) c"
      "map fst c' = map fst c" by blast+
    have "map_of c' = (map_of c)(key \<mapsto> (now, data))"
      unfolding e(2) by (rule update_conv')
    then have "\<forall>k. k \<noteq> key \<longrightarrow> map_of c' k = map_of c k" by simp
    with e(1,3) show "evicted key data now c = None \<and> map fst c' = map fst c
           \<and> (\<forall>k. k \<noteq> key \<longrightarrow> map_of c' k = map_of c k)" by blast
  qed
  have p2: "key \<notin> fst ` set c \<and> length c < CACHE_MAX \<longrightarrow>
           evicted key data now c = None \<and> c' = c @ [(key, (now, data))]"
    using cs by blast
  have p3: "key \<notin> fst ` set c \<and> length c = CACHE_MAX \<longrightarrow>
           (\<exists>e i. evicted key data now c = Some e \<and> c' = tl c @ [(key, (now, data))]
              \<and> map_of c e \<noteq> None \<and> map_of c' e = None
              \<and> (\<forall>k. k \<noteq> e \<and> k \<noteq> key \<longrightarrow> map_of c' k = map_of c k)
              \<and> b e = Some i \<and> (\<forall>k j. k \<noteq> e \<and> b k = Some j \<longrightarrow> i < j))"
  proof
    assume t: "key \<notin> fst ` set c \<and> length c = CACHE_MAX"
    with cs have e: "evicted key data now c = Some (fst (hd c))"
      "c' = tl c @ [(key, (now, data))]" by blast+
    from t have "c \<noteq> []" by (auto simp: CACHE_MAX_def)
    then have hd_in: "fst (hd c) \<in> fst ` set c" by (cases c) auto
    then have ne: "fst (hd c) \<noteq> key" using t by auto
    have "c' = AList.delete (fst (hd c)) (AList.update key (now, data) c)"
      using link unfolding e(1) by simp
    then have m: "map_of c' = ((map_of c)(key \<mapsto> (now, data)))(fst (hd c) := None)"
      by (simp add: delete_conv' update_conv')
    from evicted_is_first [OF o e(1)] obtain i
      where i: "b (fst (hd c)) = Some i" "\<forall>k j. k \<noteq> fst (hd c) \<and> b k = Some j \<longrightarrow> i < j"
      by blast
    have in_c: "map_of c (fst (hd c)) \<noteq> None"
      using hd_in by (simp add: map_of_eq_None_iff)
    have gone: "map_of c' (fst (hd c)) = None"
      and kept: "\<forall>k. k \<noteq> fst (hd c) \<and> k \<noteq> key \<longrightarrow> map_of c' k = map_of c k"
      by (simp_all add: m)
    show "\<exists>e i. evicted key data now c = Some e \<and> c' = tl c @ [(key, (now, data))]
              \<and> map_of c e \<noteq> None \<and> map_of c' e = None
              \<and> (\<forall>k. k \<noteq> e \<and> k \<noteq> key \<longrightarrow> map_of c' k = map_of c k)
              \<and> b e = Some i \<and> (\<forall>k j. k \<noteq> e \<and> b k = Some j \<longrightarrow> i < j)"
      by (intro exI [of _ "fst (hd c)"] exI [of _ i] conjI e in_c gone kept i)
  qed
  have written: "map_of c' key = Some (now, data)"
  proof (cases "evicted key data now c")
    case None
    with link have "c' = AList.update key (now, data) c" by simp
    then show ?thesis by (simp add: update_conv')
  next
    case (Some e)
    with link have c: "c' = AList.delete e (AList.update key (now, data) c)" by simp
    from evicted_is_first [OF o Some] have "key \<notin> fst ` set c" by blast
    moreover have "e \<in> fst ` set c"
      using evicted_is_first [OF o Some] dm by blast
    ultimately have "e \<noteq> key" by blast
    then show ?thesis unfolding c by (simp add: delete_conv' update_conv')
  qed
  show ?thesis
    unfolding Let_def c_def [symmetric] b_def [symmetric] c'_def [symmetric]
    by (intro conjI le le' f dm written link p1 p2 p3)
qed


lemma digit_char_inj: "digit_char a = digit_char b \<Longrightarrow> a mod 10 = b mod 10"
proof -
  assume e: "digit_char a = digit_char b"
  have d: "distinct ''0123456789''" by simp
  have l: "a mod 10 < length ''0123456789''" "b mod 10 < length ''0123456789''" by simp_all
  from e show ?thesis
    unfolding digit_char_def using nth_eq_iff_index_eq [OF d l] by simp
qed

lemma show_nat_nonempty: "show_nat n \<noteq> []"
  by (subst show_nat.simps) simp

lemma show_nat_inj: "show_nat n = show_nat m \<Longrightarrow> n = m"
proof (induction n arbitrary: m rule: show_nat.induct)
  case (1 n)
  show ?case
  proof (cases "n < 10")
    case True
    show ?thesis
    proof (cases "m < 10")
      case m: True
      from "1.prems" True m have "digit_char n = digit_char m"
        by (simp add: show_nat.simps [of n] show_nat.simps [of m])
      from digit_char_inj [OF this] True m show ?thesis by simp
    next
      case False
      with "1.prems" True show_nat_nonempty [of "m div 10"] show ?thesis
        by (simp add: show_nat.simps [of n] show_nat.simps [of m])
    qed
  next
    case False
    show ?thesis
    proof (cases "m < 10")
      case True
      with "1.prems" False show_nat_nonempty [of "n div 10"] show ?thesis
        by (simp add: show_nat.simps [of n] show_nat.simps [of m])
    next
      case m: False
      from "1.prems" False m have e: "show_nat (n div 10) = show_nat (m div 10)"
        "digit_char n = digit_char m"
        by (simp_all add: show_nat.simps [of n] show_nat.simps [of m])
      from "1.IH" [OF False e(1)] have "n div 10 = m div 10" .
      moreover from digit_char_inj [OF e(2)] have "n mod 10 = m mod 10" .
      ultimately show ?thesis by (metis div_mult_mod_eq)
    qed
  qed
qed

lemma kkey_inj [simp]: "kkey i = kkey j \<longleftrightarrow> i = j"
  using show_nat_inj [of i j] by (auto simp: kkey_def cacheKey_def show_int_def)

lemma cache_run_append: "cache_run (xs @ ys) c = cache_run ys (cache_run xs c)"
  by (simp add: cache_run_def)

lemma cache_run_single [simp]: "cache_run [x] c = cache_do x c"
  by (simp add: cache_run_def)

lemma fill_upto:
  "n \<le> 500 \<Longrightarrow> cache_run (map (\<lambda>i. Put (kkey i) [] (real i)) [0..<n]) []
     = map (\<lambda>i. (kkey i, (real i, []))) [0..<n]"
proof (induction n)
  case 0
  then show ?case by (simp add: cache_run_def)
next
  case (Suc n)
  then have ih: "cache_run (map (\<lambda>i. Put (kkey i) [] (real i)) [0..<n]) []
     = map (\<lambda>i. (kkey i, (real i, []))) [0..<n]" by simp
  have fresh: "kkey n \<notin> fst ` set (map (\<lambda>i. (kkey i, (real i, []::line list))) [0..<n])"
    by auto
  show ?case
    using Suc.prems
    by (simp add: cache_run_append ih cacheSet_def Let_def update_fresh [OF fresh] CACHE_MAX_def)
qed

lemma fill_eq: "cache_run fill_ops [] = map (\<lambda>i. (kkey i, (real i, []))) [0..<500]"
  unfolding fill_ops_def by (rule fill_upto) simp

lemma overwrite_eq:
  "cache_run overwrite_ops []
     = (kkey 0, (1000, [])) # map (\<lambda>i. (kkey i, (real i, []))) [Suc 0..<500]"
proof -
  have u: "[0..<500] = 0 # [Suc 0..<500]" by (rule upt_conv_Cons) simp
  show ?thesis
    by (simp add: overwrite_ops_def cache_run_append fill_eq cacheSet_def Let_def CACHE_MAX_def)
      (simp add: u)
qed

lemma overwrite_keys:
  "kkey 500 \<notin> fst ` set (cache_run overwrite_ops [])" "length (cache_run overwrite_ops []) = 500"
  by (auto simp: overwrite_eq)

lemma evicts_overwritten:
  "evicted (kkey 500) [] 1001 (cache_run overwrite_ops []) = Some (kkey 0)"
  using overwrite_keys
  by (simp add: evicted_def Let_def update_fresh CACHE_MAX_def) (simp add: overwrite_eq)

text \<open>
  C7, as the claim states it, fails once a put has overwritten a present key: the entry then
  carries the time of the overwrite, and the trim still goes by the place of the key. After
  500 puts at the times 0 to 499 and a second put for the first key at time 1000, the put of
  a 501st key at time 1001 trims the entry inserted at 1000, and the entry inserted at time 1
  stays.
\<close>

theorem trim_evicts_most_recently_written:
  "evicted (kkey 500) [] 1001 (cache_run overwrite_ops []) = Some (kkey 0)
   \<and> map_of (cache_run overwrite_ops []) (kkey 0) = Some (1000, [])
   \<and> map_of (cache_run (overwrite_ops @ [Put (kkey 500) [] 1001]) []) (kkey 0) = None
   \<and> map_of (cache_run (overwrite_ops @ [Put (kkey 500) [] 1001]) []) (kkey 1) = Some (1, [])"
proof -
  have u: "[Suc 0..<500] = Suc 0 # [Suc (Suc 0)..<500]" by (rule upt_conv_Cons) simp
  have a: "map_of (cache_run overwrite_ops []) (kkey 0) = Some (1000, [])"
    by (simp add: overwrite_eq)
  have b: "map_of (cache_run overwrite_ops []) (kkey 1) = Some (1, [])"
    by (simp add: overwrite_eq u)
  have c: "cache_run (overwrite_ops @ [Put (kkey 500) [] 1001]) []
      = AList.delete (kkey 0) (cache_run overwrite_ops [] @ [(kkey 500, (1001, []))])"
    using overwrite_keys
    by (simp add: cache_run_append cacheSet_def Let_def update_fresh CACHE_MAX_def)
      (simp add: overwrite_eq)
  have d: "map_of (cache_run (overwrite_ops @ [Put (kkey 500) [] 1001]) []) (kkey 0) = None"
    unfolding c by (simp add: AList.delete_conv')
  have e: "map_of (cache_run (overwrite_ops @ [Put (kkey 500) [] 1001]) []) (kkey 1) = Some (1, [])"
    unfolding c using b by (simp add: AList.delete_conv' map_add_def)
  from evicts_overwritten a d e show ?thesis by simp
qed

theorem cache_bounded_trims_longest_present_witness:
  "kkey 0 \<in> fst ` set (cache_run overwrite_ops [])
   \<and> map fst (cacheSet (kkey 0) [] 2000 (cache_run overwrite_ops []))
       = map fst (cache_run overwrite_ops [])
   \<and> kkey 0 \<notin> fst ` set (cache_run [] []) \<and> length (cache_run [] []) < CACHE_MAX
   \<and> cacheSet (kkey 0) [] 0 (cache_run [] []) = cache_run [] [] @ [(kkey 0, (0, []))]
   \<and> kkey 500 \<notin> fst ` set (cache_run overwrite_ops [])
   \<and> length (cache_run overwrite_ops []) = CACHE_MAX
   \<and> evicted (kkey 500) [] 1001 (cache_run overwrite_ops []) = Some (kkey 0)
   \<and> map_of (cacheSet (kkey 500) [] 1001 (cache_run overwrite_ops [])) (kkey 0) = None
   \<and> map_of (cacheSet (kkey 500) [] 1001 (cache_run overwrite_ops [])) (kkey 500)
       = Some (1001, [])
   \<and> (\<exists>i. snd (track overwrite_ops 0 ([], Map.empty)) (kkey 0) = Some i
          \<and> (\<forall>k j. k \<noteq> kkey 0 \<and> snd (track overwrite_ops 0 ([], Map.empty)) k = Some j
                \<longrightarrow> i < j))"
proof -
  have a: "kkey 0 \<in> fst ` set (cache_run overwrite_ops [])"
    by (simp add: overwrite_eq)
  have b: "kkey 0 \<notin> fst ` set (cache_run [] [])" "length (cache_run [] []) < CACHE_MAX"
    by (simp_all add: cache_run_def CACHE_MAX_def)
  have c: "kkey 500 \<notin> fst ` set (cache_run overwrite_ops [])"
    "length (cache_run overwrite_ops []) = CACHE_MAX"
    using overwrite_keys by (simp_all add: CACHE_MAX_def)
  note t1 = cache_bounded_trims_longest_present [of overwrite_ops "kkey 0" "[]" 2000,
      unfolded Let_def]
  note t2 = cache_bounded_trims_longest_present [of "[]" "kkey 0" "[]" 0, unfolded Let_def]
  note t3 = cache_bounded_trims_longest_present [of overwrite_ops "kkey 500" "[]" 1001,
      unfolded Let_def]
  from t1 a have r1: "map fst (cacheSet (kkey 0) [] 2000 (cache_run overwrite_ops []))
       = map fst (cache_run overwrite_ops [])" by blast
  from t2 b have r2: "cacheSet (kkey 0) [] 0 (cache_run [] []) = cache_run [] [] @ [(kkey 0, (0, []))]"
    by blast
  from t3 have r3: "map_of (cacheSet (kkey 500) [] 1001 (cache_run overwrite_ops [])) (kkey 500)
       = Some (1001, [])" by blast
  from t3 c obtain e i where e: "evicted (kkey 500) [] 1001 (cache_run overwrite_ops []) = Some e"
    "map_of (cacheSet (kkey 500) [] 1001 (cache_run overwrite_ops [])) e = None"
    "snd (track overwrite_ops 0 ([], Map.empty)) e = Some i"
    "\<forall>k j. k \<noteq> e \<and> snd (track overwrite_ops 0 ([], Map.empty)) k = Some j \<longrightarrow> i < j"
    by blast
  from e(1) evicts_overwritten have "e = kkey 0" by simp
  with e a b c r1 r2 r3 show ?thesis by blast
qed

end
